theory Spec2Isabelle
  imports Complex_Main "HOL-Library.Word"
begin

unbundle bit_operations_syntax

section \<open>stress-goto.c: constants and data\<close>

text \<open>
  \<^verbatim>\<open>#define STRESS_GOTO_FORWARD (1)\<close>, \<^verbatim>\<open>STRESS_GOTO_BACKWARD (2)\<close>,
  \<^verbatim>\<open>STRESS_GOTO_RANDOM (3)\<close>; the direction is a C \<^verbatim>\<open>int\<close>.
\<close>

definition STRESS_GOTO_FORWARD :: int where "STRESS_GOTO_FORWARD = 1"
definition STRESS_GOTO_BACKWARD :: int where "STRESS_GOTO_BACKWARD = 2"
definition STRESS_GOTO_RANDOM :: int where "STRESS_GOTO_RANDOM = 3"

text \<open>\<^verbatim>\<open>#define MAX_LABELS (0x400)\<close>\<close>

definition MAX_LABELS :: nat where "MAX_LABELS = 0x400"

text \<open>
  A \<^verbatim>\<open>const void *\<close> held in one of the label arrays: the address \<^verbatim>\<open>&&L0xnnn\<close> of the
  program point with number \<open>nnn\<close>, or the null pointer a static array holds before it
  is written.
\<close>

datatype ptr = NULL | Label nat

type_synonym u64 = "64 word"

text \<open>
  \<^verbatim>\<open>default_labels[MAX_LABELS] = { &&L0x000, &&L0x001, ..., &&L0x3ff }\<close>: the literal
  table lists the 1024 labels in ascending order.
\<close>

definition default_labels :: "ptr list" where
  "default_labels = map Label [0..<MAX_LABELS]"

section \<open>The jump tables\<close>

text \<open>
  \<^verbatim>\<open>for (i = 0; i < MAX_LABELS; i++) {
      labels_forward[i] = default_labels[(i + 1) % MAX_LABELS];
      labels_backward[i] = default_labels[(MAX_LABELS + i - 1) % MAX_LABELS];
  }\<close>
  The loop, from index \<open>i\<close> on, over the two arrays.
\<close>

function build_labels :: "nat \<Rightarrow> ptr list \<times> ptr list \<Rightarrow> ptr list \<times> ptr list" where
  "build_labels i (fwd, bwd) =
     (if i < MAX_LABELS then
        build_labels (i + 1)
          (fwd[i := default_labels ! ((i + 1) mod MAX_LABELS)],
           bwd[i := default_labels ! ((MAX_LABELS + i - 1) mod MAX_LABELS)])
      else (fwd, bwd))"
  by pat_completeness auto
termination
  by (relation "measure (\<lambda>(i, _). MAX_LABELS - i)") auto

declare build_labels.simps [simp del]

text \<open>
  \<^verbatim>\<open>static const void *labels_forward[MAX_LABELS]\<close> and \<^verbatim>\<open>labels_backward\<close> are
  zero-initialised statics, filled by the loop when \<^verbatim>\<open>stress_goto\<close> starts.
\<close>

definition labels_forward :: "ptr list" where
  "labels_forward = fst (build_labels 0 (replicate MAX_LABELS NULL, replicate MAX_LABELS NULL))"

definition labels_backward :: "ptr list" where
  "labels_backward = snd (build_labels 0 (replicate MAX_LABELS NULL, replicate MAX_LABELS NULL))"

section \<open>C doubles\<close>

text \<open>
  A C \<^verbatim>\<open>double\<close> is an IEEE 754 binary64 value: a finite number \<open>m * 2 ^ (e - 52)\<close>
  with \<open>\<bar>m\<bar> < 2 ^ 53\<close> and \<open>-1022 \<le> e \<le> 1023\<close>, an infinity, or a NaN. Arithmetic
  rounds the exact result to the nearest such number, ties to the even \<open>m\<close>. Zeros
  carry no sign here: the program compares with \<^verbatim>\<open>>\<close> and divides only by a value it
  found positive and by \<^verbatim>\<open>1000000.0\<close>, so it cannot tell \<open>-0.0\<close> from \<open>0.0\<close>.
\<close>

datatype double = Finite rat | PInf | NInf | NaN

definition pow2 :: "int \<Rightarrow> rat" where
  "pow2 k = (if 0 \<le> k then 2 ^ nat k else 1 / 2 ^ nat (- k))"

text \<open>The number of binary digits of \<open>n\<close>.\<close>

function bitlen :: "int \<Rightarrow> int" where
  "bitlen n = (if n \<le> 0 then 0 else 1 + bitlen (n div 2))"
  by pat_completeness auto
termination
  by (relation "measure nat") auto

declare bitlen.simps [simp del]

text \<open>
  \<open>\<lfloor>log\<^sub>2 x\<rfloor>\<close> for \<open>x > 0\<close>: one less than the digits of \<open>\<lfloor>x\<rfloor>\<close> from 1 on, and
  minus the digits of \<open>\<lceil>1 / x\<rceil> - 1\<close> below 1.
\<close>

definition ilog2 :: "rat \<Rightarrow> int" where
  "ilog2 x = (if 1 \<le> x then bitlen \<lfloor>x\<rfloor> - 1 else - bitlen (\<lceil>1 / x\<rceil> - 1))"

definition round_half_even :: "rat \<Rightarrow> int" where
  "round_half_even y =
     (let f = \<lfloor>y\<rfloor>; r = y - of_int f
      in if r < 1 / 2 then f else if 1 / 2 < r then f + 1 else if even f then f else f + 1)"

text \<open>Rounding an exact result to a double.\<close>

definition to_double :: "rat \<Rightarrow> double" where
  "to_double x =
     (if x = 0 then Finite 0
      else
        let a = \<bar>x\<bar>;
            e = max (ilog2 a) (- 1022);
            u = pow2 (e - 52);
            r = of_int (round_half_even (a / u)) * u
        in if pow2 1024 \<le> r then (if 0 < x then PInf else NInf)
           else Finite (if 0 < x then r else - r))"

definition dsign :: "double \<Rightarrow> int" where
  "dsign d = (case d of Finite x \<Rightarrow> (if x < 0 then - 1 else if x = 0 then 0 else 1)
                      | PInf \<Rightarrow> 1 | NInf \<Rightarrow> - 1 | NaN \<Rightarrow> 0)"

definition inf_of :: "int \<Rightarrow> double" where
  "inf_of sg = (if 0 < sg then PInf else NInf)"

text \<open>\<^verbatim>\<open>a - b\<close>\<close>

fun dsub :: "double \<Rightarrow> double \<Rightarrow> double" where
  "dsub (Finite x) (Finite y) = to_double (x - y)"
| "dsub NaN _ = NaN"
| "dsub _ NaN = NaN"
| "dsub PInf PInf = NaN"
| "dsub NInf NInf = NaN"
| "dsub PInf _ = PInf"
| "dsub NInf _ = NInf"
| "dsub (Finite _) PInf = NInf"
| "dsub (Finite _) NInf = PInf"

text \<open>\<^verbatim>\<open>a * b\<close>\<close>

definition dmul :: "double \<Rightarrow> double \<Rightarrow> double" where
  "dmul a b =
     (case (a, b) of
        (Finite x, Finite y) \<Rightarrow> to_double (x * y)
      | _ \<Rightarrow> if a = NaN \<or> b = NaN \<or> dsign a * dsign b = 0 then NaN
             else inf_of (dsign a * dsign b))"

text \<open>\<^verbatim>\<open>a / b\<close>\<close>

fun ddiv :: "double \<Rightarrow> double \<Rightarrow> double" where
  "ddiv (Finite x) (Finite y) =
     (if y = 0 then (if x = 0 then NaN else inf_of (dsign (Finite x))) else to_double (x / y))"
| "ddiv NaN _ = NaN"
| "ddiv _ NaN = NaN"
| "ddiv (Finite _) _ = Finite 0"
| "ddiv a (Finite y) = inf_of (dsign a * (if y < 0 then - 1 else 1))"
| "ddiv _ _ = NaN"

text \<open>\<^verbatim>\<open>a > b\<close>\<close>

fun dgt :: "double \<Rightarrow> double \<Rightarrow> bool" where
  "dgt (Finite x) (Finite y) = (y < x)"
| "dgt NaN _ = False"
| "dgt _ NaN = False"
| "dgt PInf b = (b \<noteq> PInf)"
| "dgt NInf _ = False"
| "dgt (Finite _) PInf = False"
| "dgt (Finite _) NInf = True"

text \<open>\<^verbatim>\<open>(double)n\<close> for a \<^verbatim>\<open>uint64_t\<close>\<close>

definition double_of_u64 :: "u64 \<Rightarrow> double" where
  "double_of_u64 n = to_double (of_nat (unat n))"

section \<open>Collaborators of the stressor\<close>

text \<open>
  \<^verbatim>\<open>stress_goto\<close> calls into the stress-ng core, which is not part of these sources.
  What the core answers is a parameter of the run: the answer of the \<open>k\<close>-th call of
  \<^verbatim>\<open>stress_continue(args)\<close>, whether the \<open>k\<close>-th call of \<^verbatim>\<open>stress_mwc1()\<close> returned a
  set bit, and the two readings \<^verbatim>\<open>t1\<close>, \<^verbatim>\<open>t2\<close> of \<^verbatim>\<open>stress_time_now()\<close>.
\<close>

record env =
  stress_continue :: "nat \<Rightarrow> bool"
  stress_mwc1 :: "nat \<Rightarrow> bool"
  t1 :: double
  t2 :: double

type_synonym settings = "string \<rightharpoonup> int"

text \<open>
  Modelled from the spec: \<^verbatim>\<open>stress_set_setting\<close> and \<^verbatim>\<open>stress_get_setting\<close> are not
  under src/. Direction Configuration "validates and stores" the direction, and the
  engine "only overrides it if a stored setting exists": storing succeeds with 0, and
  reading leaves the caller's variable alone when nothing is stored under the name.
\<close>

definition stress_set_setting :: "string \<Rightarrow> int \<Rightarrow> settings \<Rightarrow> int \<times> settings" where
  "stress_set_setting name v st = (0, st(name \<mapsto> v))"

definition stress_get_setting :: "string \<Rightarrow> int \<Rightarrow> settings \<Rightarrow> int" where
  "stress_get_setting name var st = (case st name of None \<Rightarrow> var | Some v \<Rightarrow> v)"

section \<open>The state of a run\<close>

text \<open>
  \<^verbatim>\<open>counters\<close> is the static array \<^verbatim>\<open>uint64_t counters[MAX_LABELS >> 6]\<close>, \<^verbatim>\<open>labels\<close> the
  pointer to the active table, \<open>bogo\<close> the bogo-op counter of \<^verbatim>\<open>args\<close>. \<open>polls\<close> and
  \<open>draws\<close> count the calls of \<^verbatim>\<open>stress_continue\<close> and \<^verbatim>\<open>stress_mwc1\<close> made so far.
\<close>

record goto_state =
  counters :: "u64 list"
  bogo :: u64
  labels :: "ptr list"
  polls :: nat
  draws :: nat

text \<open>
  Modelled from the spec: \<^verbatim>\<open>stress_bogo_inc\<close> and \<^verbatim>\<open>stress_bogo_get\<close> are not under
  src/. The spec's PassCounter is an "unsigned 64-bit count of completed full 1024-step
  cycles", zero at run start, that \<open>recordOp\<close> increments by one.
\<close>

definition stress_bogo_inc :: "goto_state \<Rightarrow> goto_state" where
  "stress_bogo_inc s = s\<lparr>bogo := bogo s + 1\<rparr>"

definition stress_bogo_get :: "goto_state \<Rightarrow> u64" where
  "stress_bogo_get s = bogo s"

section \<open>The branch loop\<close>

text \<open>
  Where control is: at the label with a given number, past the \<^verbatim>\<open>break\<close> of the loop,
  or lost by a jump through a null pointer.
\<close>

datatype pc = At nat | Done | Fault

text \<open>\<^verbatim>\<open>goto *p\<close>\<close>

definition goto_ptr :: "ptr \<Rightarrow> pc" where
  "goto_ptr p = (case p of NULL \<Rightarrow> Fault | Label m \<Rightarrow> At m)"

text \<open>
  \<^verbatim>\<open>#define G(n) L ## n: { if ((n & 0x3f) == 0) counters[n >> 6]++; goto *labels[n]; }\<close>
\<close>

definition G :: "nat \<Rightarrow> goto_state \<Rightarrow> pc \<times> goto_state" where
  "G n s =
     (let s' = (if n AND 0x3f = 0
                then s\<lparr>counters := (counters s)[drop_bit 6 n := counters s ! (drop_bit 6 n) + 1]\<rparr>
                else s)
      in (goto_ptr (labels s' ! n), s'))"

text \<open>
  The head of the \<^verbatim>\<open>for (;;)\<close> body:
  \<^verbatim>\<open>L0x000:
      if (!stress_continue(args)) break;
      if (goto_direction == STRESS_GOTO_RANDOM)
          labels = stress_mwc1() ? labels_backward : labels_forward;
      stress_bogo_inc(args);
      counters[0]++;
      goto *labels[0];\<close>
\<close>

definition L0x000 :: "env \<Rightarrow> int \<Rightarrow> goto_state \<Rightarrow> pc \<times> goto_state" where
  "L0x000 e goto_direction s =
     (let s1 = s\<lparr>polls := polls s + 1\<rparr> in
      if \<not> stress_continue e (polls s) then (Done, s1)
      else
        let s2 = (if goto_direction = STRESS_GOTO_RANDOM
                  then s1\<lparr>labels := (if stress_mwc1 e (draws s1) then labels_backward
                                      else labels_forward),
                          draws := draws s1 + 1\<rparr>
                  else s1);
            s3 = stress_bogo_inc s2;
            s4 = s3\<lparr>counters := (counters s3)[0 := counters s3 ! 0 + 1]\<rparr>
        in (goto_ptr (labels s4 ! 0), s4))"

text \<open>
  One block of the loop body: the head at label 0, \<open>G(n)\<close> at the labels \<open>0x001\<close> to
  \<open>0x3ff\<close>. Every block ends in a \<^verbatim>\<open>goto\<close> or the \<^verbatim>\<open>break\<close>, so no block falls through
  into the next.
\<close>

definition block :: "env \<Rightarrow> int \<Rightarrow> nat \<Rightarrow> goto_state \<Rightarrow> pc \<times> goto_state" where
  "block e goto_direction n s = (if n = 0 then L0x000 e goto_direction s else G n s)"

text \<open>
  The loop runs blocks until control leaves it. It need not return: \<open>None\<close> is the run
  that jumps forever.
\<close>

partial_function (option) goto_loop :: "env \<Rightarrow> int \<Rightarrow> pc \<Rightarrow> goto_state \<Rightarrow> (pc \<times> goto_state) option" where
  "goto_loop e goto_direction p s =
     (case p of
        At n \<Rightarrow> (case block e goto_direction n s of (p', s') \<Rightarrow> goto_loop e goto_direction p' s')
      | Done \<Rightarrow> Some (Done, s)
      | Fault \<Rightarrow> Some (Fault, s))"

section \<open>After the loop: the sanity check and the rate\<close>

text \<open>\<^verbatim>\<open>EXIT_SUCCESS\<close> and \<^verbatim>\<open>EXIT_FAILURE\<close> of the C library.\<close>

definition EXIT_SUCCESS :: int where "EXIT_SUCCESS = 0"
definition EXIT_FAILURE :: int where "EXIT_FAILURE = 1"

text \<open>\<^verbatim>\<open>SIZEOF_ARRAY(counters)\<close>, for \<^verbatim>\<open>counters[MAX_LABELS >> 6]\<close>\<close>

definition SIZEOF_counters :: nat where
  "SIZEOF_counters = drop_bit 6 MAX_LABELS"

text \<open>
  One call of \<^verbatim>\<open>pr_fail\<close>, by the values it prints:
  \<^verbatim>\<open>"goto label %zd execution count out by more than +/-1, got %PRIu64, expected between
  %PRIu64 and %PRIu64"\<close> with \<^verbatim>\<open>i * 64, counters[i], lo, hi\<close>.
\<close>

record failure =
  f_label :: nat
  f_got :: u64
  f_lo :: u64
  f_hi :: u64

text \<open>
  \<^verbatim>\<open>for (i = 0; i < SIZEOF_ARRAY(counters); i++) {
      if ((counters[i] < lo) || (counters[i] > hi)) {
          pr_fail(...);
          rc = EXIT_FAILURE;
      }
  }\<close>
  from index \<open>i\<close> on, over \<^verbatim>\<open>rc\<close> and the messages printed so far.
\<close>

function check_counters ::
  "nat \<Rightarrow> u64 list \<Rightarrow> u64 \<Rightarrow> u64 \<Rightarrow> int \<times> failure list \<Rightarrow> int \<times> failure list" where
  "check_counters i cs lo hi (rc, out) =
     (if i < SIZEOF_counters then
        check_counters (i + 1) cs lo hi
          (if cs ! i < lo \<or> cs ! i > hi
           then (EXIT_FAILURE, out @ [\<lparr>f_label = i * 64, f_got = cs ! i, f_lo = lo, f_hi = hi\<rparr>])
           else (rc, out))
      else (rc, out))"
  by pat_completeness auto
termination
  by (relation "measure (\<lambda>(i, _). SIZEOF_counters - i)") auto

declare check_counters.simps [simp del]

text \<open>
  Modelled from the spec: the aggregation tags of \<^verbatim>\<open>stress_metrics_set\<close> are declared
  in stress-ng.h, which is not under src/. The spec's "aggregation hint for multi-sample
  reporting" is the harmonic mean, which the stressor passes as
  \<^verbatim>\<open>STRESS_HARMONIC_MEAN\<close>; the geometric mean is the other tag.
\<close>

datatype mean_tag = STRESS_HARMONIC_MEAN | STRESS_GEOMETRIC_MEAN

text \<open>One call of \<^verbatim>\<open>stress_metrics_set(args, idx, description, value, mean_type)\<close>.\<close>

record metric =
  m_index :: nat
  m_name :: string
  m_value :: double
  m_mean :: mean_tag

text \<open>What an invocation leaves behind: its return value, the failures printed, the
  metrics set, and the counters.\<close>

record report =
  rc :: int
  failures :: "failure list"
  metrics :: "metric list"
  final :: goto_state

text \<open>
  \<^verbatim>\<open>rate = (duration > 0.0) ? (1024.0 * (double)stress_bogo_get(args)) / duration : 0.0;\<close>
\<close>

definition rate_of :: "u64 \<Rightarrow> double \<Rightarrow> double" where
  "rate_of bogo_counter duration =
     (if dgt duration (Finite 0)
      then ddiv (dmul (Finite 1024) (double_of_u64 bogo_counter)) duration
      else Finite 0)"

text \<open>Lines 426 to 452 of \<^verbatim>\<open>stress_goto\<close>: everything after the loop.\<close>

definition finish :: "env \<Rightarrow> goto_state \<Rightarrow> report" where
  "finish e s =
     (let bogo_counter = stress_bogo_get s;
          lo = bogo_counter - 1;
          hi = bogo_counter + 1;
          chk = check_counters 0 (counters s) lo hi (EXIT_SUCCESS, []);
          duration = dsub (t2 e) (t1 e);
          rate = rate_of (stress_bogo_get s) duration
      in \<lparr>rc = fst chk,
          failures = snd chk,
          metrics = [\<lparr>m_index = 0, m_name = ''million gotos per sec'',
                      m_value = ddiv rate (Finite 1000000), m_mean = STRESS_HARMONIC_MEAN\<rparr>],
          final = s\<rparr>)"

section \<open>The stressor\<close>

text \<open>
  \<^verbatim>\<open>goto_direction = STRESS_GOTO_RANDOM;
  (void)stress_get_setting("goto-direction", &goto_direction);\<close>
\<close>

definition goto_direction_of :: "settings \<Rightarrow> int" where
  "goto_direction_of st = stress_get_setting ''goto-direction'' STRESS_GOTO_RANDOM st"

text \<open>
  \<^verbatim>\<open>const void **labels = labels_forward;\<close> and the \<^verbatim>\<open>switch (goto_direction)\<close>, which
  has no \<^verbatim>\<open>default\<close> case.
\<close>

definition initial_labels :: "int \<Rightarrow> ptr list" where
  "initial_labels goto_direction =
     (if goto_direction = STRESS_GOTO_FORWARD then labels_forward
      else if goto_direction = STRESS_GOTO_BACKWARD then labels_backward
      else if goto_direction = STRESS_GOTO_RANDOM then labels_forward
      else labels_forward)"

definition initial_state :: "int \<Rightarrow> goto_state" where
  "initial_state goto_direction =
     \<lparr>counters = replicate SIZEOF_counters 0, bogo = 0,
      labels = initial_labels goto_direction, polls = 0, draws = 0\<rparr>"

datatype error = Null_jump

text \<open>
  \<^verbatim>\<open>stress_goto\<close>: \<open>None\<close> when the loop never ends, \<open>Inl\<close> when a jump went through a
  null pointer, \<open>Inr\<close> with the report when the function returns. The two calls of
  \<^verbatim>\<open>stress_set_proc_state\<close> only name the state of the process and are left out.
\<close>

definition stress_goto :: "settings \<Rightarrow> env \<Rightarrow> (error + report) option" where
  "stress_goto st e =
     (let goto_direction = goto_direction_of st in
      case goto_loop e goto_direction (At 0) (initial_state goto_direction) of
        None \<Rightarrow> None
      | Some (p, s) \<Rightarrow> (if p = Done then Some (Inr (finish e s)) else Some (Inl Null_jump)))"

section \<open>The direction option\<close>

text \<open>The table \<^verbatim>\<open>stress_goto_direction[]\<close> of \<^verbatim>\<open>stress_set_goto_direction\<close>.\<close>

definition stress_goto_direction :: "(string \<times> int) list" where
  "stress_goto_direction =
     [(''forward'', STRESS_GOTO_FORWARD),
      (''backward'', STRESS_GOTO_BACKWARD),
      (''random'', STRESS_GOTO_RANDOM)]"

text \<open>
  The first loop: the direction of the first entry with \<^verbatim>\<open>!strcmp(opts, option)\<close>. A
  string is the characters before the terminating NUL.
\<close>

fun find_direction :: "string \<Rightarrow> (string \<times> int) list \<Rightarrow> int option" where
  "find_direction opts [] = None"
| "find_direction opts ((option, direction) # rest) =
     (if opts = option then Some direction else find_direction opts rest)"

text \<open>
  The second loop: \<^verbatim>\<open>fprintf(stderr, "%s %s", i == 0 ? "" : ",", option)\<close> for every
  entry from index \<open>i\<close> on.
\<close>

fun list_options :: "nat \<Rightarrow> (string \<times> int) list \<Rightarrow> string" where
  "list_options i [] = []"
| "list_options i ((option, direction) # rest) =
     (if i = 0 then [] else '','') @ '' '' @ option @ list_options (i + 1) rest"

text \<open>
  \<^verbatim>\<open>stress_set_goto_direction(opts)\<close>: the value returned, the settings afterwards and
  what was written to \<^verbatim>\<open>stderr\<close>.
\<close>

definition stress_set_goto_direction :: "string \<Rightarrow> settings \<Rightarrow> int \<times> settings \<times> string" where
  "stress_set_goto_direction opts st =
     (case find_direction opts stress_goto_direction of
        Some direction \<Rightarrow>
          (case stress_set_setting ''goto-direction'' direction st of
             (ret, st') \<Rightarrow> (ret, st', []))
      | None \<Rightarrow>
          (- 1, st,
           ''goto-option option '' @ [CHR 0x27] @ opts @ [CHR 0x27] @
           '' not known, options are:'' @
           list_options 0 stress_goto_direction @ [CHR 0x0A]))"

text \<open>
  Modelled from the spec: the option processing of the stress-ng core, which calls the
  setter of an option and later the stressor, is not under src/. "A configuration error
  short-circuits directly from Idle to a terminal failed state without ever reaching
  Running"; with no option given, the stressor runs on the settings as they are.
\<close>

datatype invocation = ConfigurationError string | Ran "(error + report) option"

definition invoke :: "string option \<Rightarrow> env \<Rightarrow> invocation" where
  "invoke token e =
     (case token of
        None \<Rightarrow> Ran (stress_goto Map.empty e)
      | Some opts \<Rightarrow>
          (case stress_set_goto_direction opts Map.empty of
             (ret, st, err) \<Rightarrow>
               if ret < 0 then ConfigurationError err else Ran (stress_goto st e)))"

section \<open>Notions the properties are stated with\<close>

text \<open>
  Following a table from index \<open>i\<close> for \<open>k\<close> jumps, each a \<^verbatim>\<open>goto *table[n]\<close> at the
  index \<open>n\<close> reached so far.
\<close>

fun follow :: "ptr list \<Rightarrow> nat \<Rightarrow> nat \<Rightarrow> pc" where
  "follow table 0 i = At i"
| "follow table (Suc k) i =
     (case follow table k i of At n \<Rightarrow> goto_ptr (table ! n) | p \<Rightarrow> p)"

text \<open>The indices visited by \<open>MAX_LABELS\<close> jumps from \<open>i\<close>, in order.\<close>

definition visited :: "ptr list \<Rightarrow> nat \<Rightarrow> pc list" where
  "visited table i = map (\<lambda>k. follow table k i) [0..<MAX_LABELS]"

text \<open>The counters with one added where \<open>P\<close> holds of the index.\<close>

definition bump :: "(nat \<Rightarrow> bool) \<Rightarrow> u64 list \<Rightarrow> u64 list" where
  "bump P cs = map (\<lambda>j. if P j then cs ! j + 1 else cs ! j) [0..<length cs]"

text \<open>
  The effect of one whole pass, from the head of the loop body back to it: one poll,
  one draw in random mode, one bogo-op, and every counter up by one.
\<close>

definition pass :: "env \<Rightarrow> int \<Rightarrow> goto_state \<Rightarrow> goto_state" where
  "pass e d s =
     s\<lparr>polls := polls s + 1,
       labels := (if d = STRESS_GOTO_RANDOM
                  then (if stress_mwc1 e (draws s) then labels_backward else labels_forward)
                  else labels s),
       draws := (if d = STRESS_GOTO_RANDOM then draws s + 1 else draws s),
       bogo := bogo s + 1,
       counters := map (\<lambda>c. c + 1) (counters s)\<rparr>"

text \<open>The state of the loop after \<open>k\<close> blocks of a run in direction \<open>d\<close>.\<close>

definition after_blocks :: "env \<Rightarrow> int \<Rightarrow> nat \<Rightarrow> pc \<times> goto_state" where
  "after_blocks e d k =
     ((\<lambda>(p, s). case p of At n \<Rightarrow> block e d n s | _ \<Rightarrow> (p, s)) ^^ k)
       (At 0, initial_state d)"

text \<open>
  The check of the code in closed form: for every \<open>k\<close> in \<open>[0, 16)\<close> whose counter fails
  the comparison with \<^verbatim>\<open>lo\<close> and \<^verbatim>\<open>hi\<close>, the values of one \<^verbatim>\<open>pr_fail\<close>. As in the code,
  \<^verbatim>\<open>lo = bogo_counter - 1\<close> and \<^verbatim>\<open>hi = bogo_counter + 1\<close> are unsigned 64-bit values and
  wrap around; this is not the range of the specification, which follows.
\<close>

definition violations :: "u64 list \<Rightarrow> u64 \<Rightarrow> failure list" where
  "violations cs passes =
     map (\<lambda>k. \<lparr>f_label = 64 * k, f_got = cs ! k, f_lo = passes - 1, f_hi = passes + 1\<rparr>)
       (filter (\<lambda>k. \<not> (passes - 1 \<le> cs ! k \<and> cs ! k \<le> passes + 1)) [0..<16])"

text \<open>
  A violation as the specification reports it: the index, the observed count and the
  expected inclusive range.
\<close>

record violation =
  v_index :: nat
  v_observed :: u64
  v_low :: int
  v_high :: int

text \<open>
  The violations as the specification lists them: for every \<open>k\<close> in \<open>[0, 16)\<close> whose
  counter is outside the inclusive range from \<open>passes - 1\<close> to \<open>passes + 1\<close>. The range
  is a tolerance of one pass either way around the pass count, so its bounds are the
  integers one below and one above it and do not wrap around.
\<close>

definition spec_violations :: "u64 list \<Rightarrow> u64 \<Rightarrow> violation list" where
  "spec_violations cs passes =
     map (\<lambda>k. \<lparr>v_index = 64 * k, v_observed = cs ! k,
                v_low = uint passes - 1, v_high = uint passes + 1\<rparr>)
       (filter (\<lambda>k. \<not> (uint passes - 1 \<le> uint (cs ! k) \<and> uint (cs ! k) \<le> uint passes + 1))
          [0..<16])"

text \<open>A failure the code prints, read as a violation.\<close>

definition as_violation :: "failure \<Rightarrow> violation" where
  "as_violation f =
     \<lparr>v_index = f_label f, v_observed = f_got f, v_low = uint (f_lo f), v_high = uint (f_hi f)\<rparr>"

text \<open>The state in which a run in direction \<open>d\<close> leaves the loop after \<open>n\<close> passes.\<close>

definition exit_state :: "env \<Rightarrow> int \<Rightarrow> nat \<Rightarrow> goto_state" where
  "exit_state e d n = ((pass e d ^^ n) (initial_state d))\<lparr>polls := n + 1\<rparr>"

text \<open>The failures the loop of the sanity check prints from index \<open>i\<close> on.\<close>

definition violations_from :: "nat \<Rightarrow> u64 list \<Rightarrow> u64 \<Rightarrow> u64 \<Rightarrow> failure list" where
  "violations_from i cs lo hi =
     map (\<lambda>k. \<lparr>f_label = k * 64, f_got = cs ! k, f_lo = lo, f_hi = hi\<rparr>)
       (filter (\<lambda>k. cs ! k < lo \<or> cs ! k > hi) [i..<SIZEOF_counters])"

section \<open>Properties of the jump tables\<close>

lemma default_labels_nth: "j < MAX_LABELS \<Longrightarrow> default_labels ! j = Label j"
  by (simp add: default_labels_def)

lemma build_labels_length:
  "length (fst (build_labels i (fwd, bwd))) = length fwd \<and>
   length (snd (build_labels i (fwd, bwd))) = length bwd"
proof (induction i "(fwd, bwd)" arbitrary: fwd bwd rule: build_labels.induct)
  case (1 i fwd bwd)
  show ?case
  proof (cases "i < MAX_LABELS")
    case True
    with 1 show ?thesis by (subst (1 2) build_labels.simps) simp
  next
    case False
    then show ?thesis by (subst (1 2) build_labels.simps) simp
  qed
qed

lemma build_labels_nth:
  assumes "length fwd = MAX_LABELS" "length bwd = MAX_LABELS" "j < MAX_LABELS"
  shows "fst (build_labels i (fwd, bwd)) ! j =
           (if i \<le> j then Label ((j + 1) mod MAX_LABELS) else fwd ! j) \<and>
         snd (build_labels i (fwd, bwd)) ! j =
           (if i \<le> j then Label ((MAX_LABELS + j - 1) mod MAX_LABELS) else bwd ! j)"
  using assms
proof (induction i "(fwd, bwd)" arbitrary: fwd bwd rule: build_labels.induct)
  case (1 i fwd bwd)
  show ?case
  proof (cases "i < MAX_LABELS")
    case True
    let ?f = "fwd[i := default_labels ! ((i + 1) mod MAX_LABELS)]"
    let ?b = "bwd[i := default_labels ! ((MAX_LABELS + i - 1) mod MAX_LABELS)]"
    have step: "build_labels i (fwd, bwd) = build_labels (i + 1) (?f, ?b)"
      using True by (subst build_labels.simps) simp
    have pos: "0 < MAX_LABELS" using True by simp
    have IH: "fst (build_labels (i + 1) (?f, ?b)) ! j =
                (if i + 1 \<le> j then Label ((j + 1) mod MAX_LABELS) else ?f ! j) \<and>
              snd (build_labels (i + 1) (?f, ?b)) ! j =
                (if i + 1 \<le> j then Label ((MAX_LABELS + j - 1) mod MAX_LABELS) else ?b ! j)"
      using "1.hyps"[OF True] "1.prems" by simp
    have f: "?f ! i = Label ((i + 1) mod MAX_LABELS)"
      using True "1.prems" pos by (simp add: default_labels_nth)
    have b: "?b ! i = Label ((MAX_LABELS + i - 1) mod MAX_LABELS)"
      using True "1.prems" pos by (simp add: default_labels_nth)
    show ?thesis
    proof (cases "i = j")
      case True
      with IH f b show ?thesis unfolding step by simp
    next
      case False
      with IH show ?thesis unfolding step by auto
    qed
  next
    case False
    with "1.prems" show ?thesis by (subst (1 2) build_labels.simps) simp
  qed
qed

section \<open>The walk of one pass\<close>

lemma and_0x3f: "(n::nat) AND 0x3f = n mod 64"
proof -
  have "n AND mask 6 = n mod 2 ^ 6"
    by (simp only: flip: take_bit_eq_mask take_bit_eq_mod)
  then show ?thesis by (simp add: mask_eq_exp_minus_1)
qed

lemma drop_bit_6: "drop_bit 6 (n::nat) = n div 64"
  by (simp add: drop_bit_eq_div)

lemma G_eq:
  "G n s = (goto_ptr (labels s ! n),
            if n mod 64 = 0
            then s\<lparr>counters := (counters s)[n div 64 := counters s ! (n div 64) + 1]\<rparr>
            else s)"
  by (simp add: G_def and_0x3f drop_bit_6 Let_def)

lemma labels_forward_nth: "i < 1024 \<Longrightarrow> labels_forward ! i = Label ((i + 1) mod 1024)"
  using build_labels_nth[of "replicate MAX_LABELS NULL" "replicate MAX_LABELS NULL" i 0]
  by (simp add: labels_forward_def MAX_LABELS_def)

lemma labels_backward_nth: "i < 1024 \<Longrightarrow> labels_backward ! i = Label ((i + 1023) mod 1024)"
  using build_labels_nth[of "replicate MAX_LABELS NULL" "replicate MAX_LABELS NULL" i 0]
  by (simp add: labels_backward_def MAX_LABELS_def add.commute)

lemma length_bump [simp]: "length (bump P cs) = length cs"
  by (simp add: bump_def)

lemma nth_bump: "j < length cs \<Longrightarrow> bump P cs ! j = (if P j then cs ! j + 1 else cs ! j)"
  by (simp add: bump_def)

lemma bump_none: "(\<And>j. j < length cs \<Longrightarrow> \<not> P j) \<Longrightarrow> bump P cs = cs"
  by (rule nth_equalityI) (simp_all add: nth_bump)

lemma goto_loop_At:
  "goto_loop e d (At n) s = (case block e d n s of (p', s') \<Rightarrow> goto_loop e d p' s')"
  by (subst goto_loop.simps) simp

lemma goto_loop_Done: "goto_loop e d Done s = Some (Done, s)"
  by (subst goto_loop.simps) simp

lemma G_step_fwd:
  assumes "labels s = labels_forward" "1 \<le> k" "k < 1024"
  shows "goto_loop e d (At k) s = goto_loop e d (At ((k + 1) mod 1024)) 
          (if k mod 64 = 0
             then s\<lparr>counters := (counters s)[k div 64 := counters s ! (k div 64) + 1]\<rparr>
             else s)"
  using assms
  apply (subst goto_loop_At)
  apply (simp add: block_def G_eq labels_forward_nth goto_ptr_def)
  done

lemma bump_fwd_step:
  assumes "k + 1 < 1024"
  shows "bump (\<lambda>j. k + 1 \<le> 64 * j) (if k mod 64 = 0 then cs[k div 64 := cs ! (k div 64) + 1] else cs)
       = bump (\<lambda>j. k \<le> 64 * j) cs" (is "bump ?P ?cs' = bump ?Q cs")
proof (rule nth_equalityI)
  show "length (bump ?P ?cs') = length (bump ?Q cs)"
    by simp
next
  fix j assume "j < length (bump ?P ?cs')"
  then have j: "j < length cs" by (simp split: if_splits)
  show "bump ?P ?cs' ! j = bump ?Q cs ! j"
  proof (cases "k mod 64 = 0")
    case True
    then have kd: "k = 64 * (k div 64)" by (simp add: mod_eq_0_iff_dvd)
    show ?thesis
    proof (cases "j = k div 64")
      case True
      then have "?Q j" "\<not> ?P j" using kd by simp_all
      with True j \<open>k mod 64 = 0\<close> show ?thesis by (simp add: nth_bump)
    next
      case False
      then have "k \<noteq> 64 * j" using kd by simp
      then have "?Q j \<longleftrightarrow> ?P j" by arith
      with False j \<open>k mod 64 = 0\<close> show ?thesis by (simp add: nth_bump)
    qed
  next
    case False
    then have "k \<noteq> 64 * j" by auto
    then have "?Q j \<longleftrightarrow> ?P j" by arith
    with False j show ?thesis by (simp add: nth_bump)
  qed
qed


lemma fwd_walk:
  assumes "labels s = labels_forward" "1 \<le> k" "k < 1024" "length (counters s) = 16"
  shows "goto_loop e d (At k) s =
         goto_loop e d (At 0) (s\<lparr>counters := bump (\<lambda>j. k \<le> 64 * j) (counters s)\<rparr>)"
  using assms
proof (induction m \<equiv> "1023 - k" arbitrary: k s)
  case 0
  then have k: "k = 1023" by simp
  have "bump (\<lambda>j. k \<le> 64 * j) (counters s) = counters s"
    using "0.prems"(4) k by (intro bump_none) simp
  with G_step_fwd[OF "0.prems"(1-3), of e d] k show ?case by simp
next
  case (Suc m)
  let ?s' = "if k mod 64 = 0
             then s\<lparr>counters := (counters s)[k div 64 := counters s ! (k div 64) + 1]\<rparr>
             else s"
  from Suc.hyps(2) have k: "k + 1 < 1024" "(k + 1) mod 1024 = k + 1" "m = 1023 - (k + 1)"
    by simp_all
  have lab: "labels ?s' = labels_forward" and len: "length (counters ?s') = 16"
    using Suc.prems by simp_all
  have cs': "counters ?s' =
    (if k mod 64 = 0 then (counters s)[k div 64 := counters s ! (k div 64) + 1] else counters s)"
    by simp
  have "goto_loop e d (At k) s = goto_loop e d (At (k + 1)) ?s'"
    using G_step_fwd[OF Suc.prems(1-3), of e d] k by simp
  also have "\<dots> = goto_loop e d (At 0)
                (?s'\<lparr>counters := bump (\<lambda>j. k + 1 \<le> 64 * j) (counters ?s')\<rparr>)"
    using k len by (intro Suc.hyps(1) lab) simp_all
  also have "?s'\<lparr>counters := bump (\<lambda>j. k + 1 \<le> 64 * j) (counters ?s')\<rparr> =
             s\<lparr>counters := bump (\<lambda>j. k \<le> 64 * j) (counters s)\<rparr>"
    unfolding cs' bump_fwd_step[OF k(1)] by simp
  finally show ?case .
qed

lemma G_step_bwd:
  assumes "labels s = labels_backward" "1 \<le> k" "k < 1024"
  shows "goto_loop e d (At k) s = goto_loop e d (At (k - 1))
          (if k mod 64 = 0
             then s\<lparr>counters := (counters s)[k div 64 := counters s ! (k div 64) + 1]\<rparr>
             else s)"
proof -
  have "(k + 1023) mod 1024 = k - 1"
    using assms(2,3) by (simp add: mod_if)
  with assms show ?thesis
    by (subst goto_loop_At) (simp add: block_def G_eq labels_backward_nth goto_ptr_def)
qed

lemma bump_bwd_step:
  assumes "1 \<le> k"
  shows "bump (\<lambda>j. 1 \<le> j \<and> 64 * j \<le> k - 1)
           (if k mod 64 = 0 then cs[k div 64 := cs ! (k div 64) + 1] else cs)
       = bump (\<lambda>j. 1 \<le> j \<and> 64 * j \<le> k) cs" (is "bump ?P ?cs' = bump ?Q cs")
proof (rule nth_equalityI)
  show "length (bump ?P ?cs') = length (bump ?Q cs)"
    by simp
next
  fix j assume "j < length (bump ?P ?cs')"
  then have j: "j < length cs" by (simp split: if_splits)
  show "bump ?P ?cs' ! j = bump ?Q cs ! j"
  proof (cases "k mod 64 = 0")
    case True
    then have kd: "k = 64 * (k div 64)" by (simp add: mod_eq_0_iff_dvd)
    show ?thesis
    proof (cases "j = k div 64")
      case True
      then have "64 * j = k" using kd by simp
      then have "?Q j" "\<not> ?P j" using assms by auto
      with True j \<open>k mod 64 = 0\<close> show ?thesis by (simp add: nth_bump)
    next
      case False
      then have "k \<noteq> 64 * j" using kd by simp
      then have "?Q j \<longleftrightarrow> ?P j" by arith
      with False j \<open>k mod 64 = 0\<close> show ?thesis by (simp add: nth_bump)
    qed
  next
    case False
    then have "k \<noteq> 64 * j" by auto
    then have "?Q j \<longleftrightarrow> ?P j" by arith
    with False j show ?thesis by (simp add: nth_bump)
  qed
qed

lemma bwd_walk:
  assumes "labels s = labels_backward" "1 \<le> k" "k < 1024"
  shows "goto_loop e d (At k) s =
         goto_loop e d (At 0) (s\<lparr>counters := bump (\<lambda>j. 1 \<le> j \<and> 64 * j \<le> k) (counters s)\<rparr>)"
  using assms
proof (induction m \<equiv> "k - 1" arbitrary: k s)
  case 0
  then have k: "k = 1" by simp
  have "bump (\<lambda>j. 1 \<le> j \<and> 64 * j \<le> k) (counters s) = counters s"
    using k by (intro bump_none) simp
  with G_step_bwd[OF "0.prems"(1-3), of e d] k show ?case by simp
next
  case (Suc m)
  let ?s' = "if k mod 64 = 0
             then s\<lparr>counters := (counters s)[k div 64 := counters s ! (k div 64) + 1]\<rparr>
             else s"
  from Suc.hyps(2) Suc.prems have k: "1 \<le> k - 1" "k - 1 < 1024" "m = (k - 1) - 1"
    by simp_all
  have lab: "labels ?s' = labels_backward"
    using Suc.prems by simp_all
  have cs': "counters ?s' =
    (if k mod 64 = 0 then (counters s)[k div 64 := counters s ! (k div 64) + 1] else counters s)"
    by simp
  have "goto_loop e d (At k) s = goto_loop e d (At (k - 1)) ?s'"
    using G_step_bwd[OF Suc.prems(1-3), of e d] by simp
  also have "\<dots> = goto_loop e d (At 0)
                (?s'\<lparr>counters := bump (\<lambda>j. 1 \<le> j \<and> 64 * j \<le> k - 1) (counters ?s')\<rparr>)"
    using k by (intro Suc.hyps(1) lab) simp_all
  also have "?s'\<lparr>counters := bump (\<lambda>j. 1 \<le> j \<and> 64 * j \<le> k - 1) (counters ?s')\<rparr> =
             s\<lparr>counters := bump (\<lambda>j. 1 \<le> j \<and> 64 * j \<le> k) (counters s)\<rparr>"
    unfolding cs' bump_bwd_step[OF Suc.prems(2)] by simp
  finally show ?case .
qed


lemma bump_all:
  assumes "length cs = 16" "\<And>j. j < 16 \<Longrightarrow> P j \<longleftrightarrow> 1 \<le> j"
  shows "bump P (cs[0 := cs ! 0 + 1]) = map (\<lambda>c. c + 1) cs"
proof (rule nth_equalityI)
  show "length (bump P (cs[0 := cs ! 0 + 1])) = length (map (\<lambda>c. c + 1) cs)" by simp
next
  fix j assume "j < length (bump P (cs[0 := cs ! 0 + 1]))"
  then have j: "j < 16" "j < length cs" using assms(1) by simp_all
  show "bump P (cs[0 := cs ! 0 + 1]) ! j = map (\<lambda>c. c + 1) cs ! j"
    using j assms(2)[OF j(1)] by (cases "j = 0") (simp_all add: nth_bump)
qed

lemma one_pass:
  assumes cont: "stress_continue e (polls s)"
    and len: "length (counters s) = 16"
    and lab: "labels s = labels_forward \<or> labels s = labels_backward"
  shows "goto_loop e d (At 0) s = goto_loop e d (At 0) (pass e d s)"
proof -
  let ?l = "if d = STRESS_GOTO_RANDOM
            then (if stress_mwc1 e (draws s) then labels_backward else labels_forward)
            else labels s"
  let ?s4 = "s\<lparr>polls := polls s + 1, labels := ?l,
               draws := (if d = STRESS_GOTO_RANDOM then draws s + 1 else draws s),
               bogo := bogo s + 1,
               counters := (counters s)[0 := counters s ! 0 + 1]\<rparr>"
  have head: "L0x000 e d s = (goto_ptr (?l ! 0), ?s4)"
    using cont by (simp add: L0x000_def Let_def stress_bogo_inc_def)
  have l: "?l = labels_forward \<or> ?l = labels_backward"
    using lab by simp
  have len4: "length (counters ?s4) = 16" using len by simp
  have start: "goto_loop e d (At 0) s = goto_loop e d (goto_ptr (?l ! 0)) ?s4"
    by (subst goto_loop_At) (simp add: block_def head)
  from l show ?thesis
  proof
    assume f: "?l = labels_forward"
    have "goto_loop e d (goto_ptr (?l ! 0)) ?s4 = goto_loop e d (At 1) ?s4"
      unfolding f by (simp add: labels_forward_nth goto_ptr_def)
    also have "\<dots> = goto_loop e d (At 0)
         (?s4\<lparr>counters := bump (\<lambda>j. 1 \<le> 64 * j) (counters ?s4)\<rparr>)"
      using f len4 by (intro fwd_walk) simp_all
    also have "bump (\<lambda>j. 1 \<le> 64 * j) (counters ?s4) = map (\<lambda>c. c + 1) (counters s)"
      using len by (simp add: bump_all)
    finally show ?thesis using start by (simp add: pass_def)
  next
    assume b: "?l = labels_backward"
    have "goto_loop e d (goto_ptr (?l ! 0)) ?s4 = goto_loop e d (At 1023) ?s4"
      unfolding b by (simp add: labels_backward_nth goto_ptr_def)
    also have "\<dots> = goto_loop e d (At 0)
         (?s4\<lparr>counters := bump (\<lambda>j. 1 \<le> j \<and> 64 * j \<le> 1023) (counters ?s4)\<rparr>)"
      using b by (intro bwd_walk) simp_all
    also have "bump (\<lambda>j. 1 \<le> j \<and> 64 * j \<le> 1023) (counters ?s4) = map (\<lambda>c. c + 1) (counters s)"
      using len by (simp add: bump_all)
    finally show ?thesis using start by (simp add: pass_def)
  qed
qed

lemma pass_facts:
  "polls (pass e d s) = polls s + 1"
  "length (counters (pass e d s)) = length (counters s)"
  "labels s = labels_forward \<or> labels s = labels_backward \<Longrightarrow>
   labels (pass e d s) = labels_forward \<or> labels (pass e d s) = labels_backward"
  by (simp_all add: pass_def)

lemma passes_facts:
  "polls ((pass e d ^^ n) s) = polls s + n"
  "length (counters ((pass e d ^^ n) s)) = length (counters s)"
  "labels s = labels_forward \<or> labels s = labels_backward \<Longrightarrow>
   labels ((pass e d ^^ n) s) = labels_forward \<or> labels ((pass e d ^^ n) s) = labels_backward"
  by (induction n) (simp_all add: pass_facts)

lemma goto_loop_exits:
  assumes "\<And>j. j < n \<Longrightarrow> stress_continue e (polls s + j)"
    and "\<not> stress_continue e (polls s + n)"
    and "length (counters s) = 16"
    and "labels s = labels_forward \<or> labels s = labels_backward"
  shows "goto_loop e d (At 0) s =
         Some (Done, ((pass e d ^^ n) s)\<lparr>polls := polls s + n + 1\<rparr>)"
  using assms
proof (induction n arbitrary: s)
  case 0
  then have "L0x000 e d s = (Done, s\<lparr>polls := polls s + 1\<rparr>)"
    by (simp add: L0x000_def)
  then show ?case
    by (subst goto_loop_At) (simp add: block_def goto_loop_Done)
next
  case (Suc n)
  have c0: "stress_continue e (polls s)"
    using Suc.prems(1)[of 0] by simp
  have "goto_loop e d (At 0) s = goto_loop e d (At 0) (pass e d s)"
    using c0 Suc.prems(3,4) by (rule one_pass)
  also have "\<dots> = Some (Done, ((pass e d ^^ n) (pass e d s))
                        \<lparr>polls := polls (pass e d s) + n + 1\<rparr>)"
  proof (rule Suc.IH)
    fix j assume "j < n"
    then show "stress_continue e (polls (pass e d s) + j)"
      using Suc.prems(1)[of "Suc j"] by (simp add: pass_facts)
  next
    show "\<not> stress_continue e (polls (pass e d s) + n)"
      using Suc.prems(2) by (simp add: pass_facts)
  qed (use Suc.prems in \<open>simp_all add: pass_facts\<close>)
  finally show ?case
    by (simp add: funpow_swap1 pass_facts)
qed


section \<open>Following a table\<close>

lemma follow_forward:
  "i < 1024 \<Longrightarrow> follow labels_forward k i = At ((i + k) mod 1024)"
proof (induction k)
  case 0
  then show ?case by simp
next
  case (Suc k)
  have "((i + k) mod 1024 + 1) mod 1024 = (i + Suc k) mod 1024"
    by (simp add: mod_Suc_eq)
  with Suc show ?case
    by (simp add: labels_forward_nth goto_ptr_def)
qed

lemma follow_backward:
  "i < 1024 \<Longrightarrow> k \<le> 1024 \<Longrightarrow> follow labels_backward k i = At ((i + 1024 - k) mod 1024)"
proof (induction k)
  case 0
  then show ?case by simp
next
  case (Suc k)
  then have k: "k < 1024" by simp
  have "((i + 1024 - k) mod 1024 + 1023) mod 1024 = (i + 1024 - k + 1023) mod 1024"
    by (simp add: mod_add_left_eq)
  also have "i + 1024 - k + 1023 = (i + 1024 - Suc k) + 1024"
    using k by simp
  also have "(i + 1024 - Suc k + 1024) mod 1024 = (i + 1024 - Suc k) mod 1024"
    by simp
  finally show ?case
    using Suc k by (simp add: labels_backward_nth goto_ptr_def)
qed

lemma mod_window_inj:
  fixes a b :: nat
  assumes "a mod 1024 = b mod 1024" "a \<le> b" "b < a + 1024"
  shows "a = b"
proof -
  from assms(1) have "b mod 1024 = a mod 1024" by simp
  then obtain q where q: "b = a + 1024 * q"
    using assms(2) by (rule mod_eq_nat1E)
  with assms(3) have "q = 0" by simp
  with q show ?thesis by simp
qed

lemma inj_forward: "inj_on (\<lambda>k. (i + k) mod 1024) {0..<MAX_LABELS}"
proof (rule inj_onI)
  fix x y :: nat
  assume "x \<in> {0..<MAX_LABELS}" and "y \<in> {0..<MAX_LABELS}"
    and eq: "(i + x) mod 1024 = (i + y) mod 1024"
  then have x: "x < 1024" and y: "y < 1024" by (simp_all add: MAX_LABELS_def)
  show "x = y"
  proof (cases "x \<le> y")
    case True
    with x y eq have "i + x = i + y" using mod_window_inj[of "i + x" "i + y"] by simp
    then show ?thesis by simp
  next
    case False
    with x y eq have "i + y = i + x" using mod_window_inj[of "i + y" "i + x"] by simp
    then show ?thesis by simp
  qed
qed

lemma inj_backward: "inj_on (\<lambda>k. (i + 1024 - k) mod 1024) {0..<MAX_LABELS}"
proof (rule inj_onI)
  fix x y :: nat
  assume "x \<in> {0..<MAX_LABELS}" and "y \<in> {0..<MAX_LABELS}"
    and eq: "(i + 1024 - x) mod 1024 = (i + 1024 - y) mod 1024"
  then have x: "x < 1024" and y: "y < 1024" by (simp_all add: MAX_LABELS_def)
  show "x = y"
  proof (cases "x \<le> y")
    case True
    with x y eq have "i + 1024 - y = i + 1024 - x"
      using mod_window_inj[of "i + 1024 - y" "i + 1024 - x"] by simp
    with x y show ?thesis by simp
  next
    case False
    with x y eq have "i + 1024 - x = i + 1024 - y"
      using mod_window_inj[of "i + 1024 - x" "i + 1024 - y"] by simp
    with x y show ?thesis by simp
  qed
qed

lemma visited_forward:
  assumes "i < MAX_LABELS"
  shows "visited labels_forward i = map (\<lambda>k. At ((i + k) mod 1024)) [0..<MAX_LABELS]"
proof -
  from assms have "i < 1024" by (simp add: MAX_LABELS_def)
  then show ?thesis
    unfolding visited_def by (intro map_cong refl follow_forward)
qed

lemma visited_backward:
  assumes "i < MAX_LABELS"
  shows "visited labels_backward i = map (\<lambda>k. At ((i + 1024 - k) mod 1024)) [0..<MAX_LABELS]"
  unfolding visited_def
proof (rule map_cong[OF refl])
  fix k assume "k \<in> set [0..<MAX_LABELS]"
  then have "k < MAX_LABELS" by simp
  then have "k \<le> 1024" by (simp add: MAX_LABELS_def)
  moreover from assms have "i < 1024" by (simp add: MAX_LABELS_def)
  ultimately show "follow labels_backward k i = At ((i + 1024 - k) mod 1024)"
    by (simp add: follow_backward)
qed

lemma cycle_of:
  assumes v: "visited table i = map (\<lambda>k. At (f k)) [0..<MAX_LABELS]"
    and inj: "inj_on f {0..<MAX_LABELS}"
    and bound: "\<And>k. f k < MAX_LABELS"
  shows "distinct (visited table i) \<and> set (visited table i) = At ` {0..<MAX_LABELS}"
proof -
  have "inj_on (\<lambda>k. At (f k)) {0..<MAX_LABELS}"
    using inj by (auto simp: inj_on_def)
  then have d: "distinct (visited table i)"
    unfolding v by (simp add: distinct_map)
  have l: "length (visited table i) = MAX_LABELS"
    unfolding v by simp
  have sub: "set (visited table i) \<subseteq> At ` {0..<MAX_LABELS}"
    unfolding v using bound by auto
  have "set (visited table i) = At ` {0..<MAX_LABELS}"
  proof (rule card_subset_eq)
    show "finite (At ` {0..<MAX_LABELS})" by simp
    show "set (visited table i) \<subseteq> At ` {0..<MAX_LABELS}" by (rule sub)
    have "card (At ` {0..<MAX_LABELS}) = MAX_LABELS"
      by (simp add: card_image inj_on_def)
    then show "card (set (visited table i)) = card (At ` {0..<MAX_LABELS})"
      using d l by (simp add: distinct_card)
  qed
  with d show ?thesis by simp
qed

section \<open>The sanity check\<close>

lemma SIZEOF_counters_16: "SIZEOF_counters = 16"
  by (simp add: SIZEOF_counters_def MAX_LABELS_def drop_bit_eq_div)

lemma violations_from_end: "SIZEOF_counters \<le> i \<Longrightarrow> violations_from i cs lo hi = []"
  by (simp add: violations_from_def)

lemma violations_from_step:
  "i < SIZEOF_counters \<Longrightarrow>
   violations_from i cs lo hi =
     (if cs ! i < lo \<or> cs ! i > hi
      then [\<lparr>f_label = i * 64, f_got = cs ! i, f_lo = lo, f_hi = hi\<rparr>] else []) @
     violations_from (i + 1) cs lo hi"
  by (simp add: violations_from_def upt_conv_Cons)

lemma check_counters_eq:
  "check_counters i cs lo hi (r0, out) =
     (if violations_from i cs lo hi = [] then r0 else EXIT_FAILURE,
      out @ violations_from i cs lo hi)"
proof (induction i cs lo hi "(r0, out)" arbitrary: r0 out rule: check_counters.induct)
  case (1 i cs lo hi r0 out)
  show ?case
  proof (cases "i < SIZEOF_counters")
    case False
    then show ?thesis
      by (subst check_counters.simps) (simp add: violations_from_end)
  next
    case True
    show ?thesis
    proof (cases "cs ! i < lo \<or> cs ! i > hi")
      case bad: True
      have "check_counters i cs lo hi (r0, out) =
            check_counters (i + 1) cs lo hi
              (EXIT_FAILURE, out @ [\<lparr>f_label = i * 64, f_got = cs ! i, f_lo = lo, f_hi = hi\<rparr>])"
        using True bad by (subst check_counters.simps) simp
      also have "\<dots> = (if violations_from (i + 1) cs lo hi = [] then EXIT_FAILURE else EXIT_FAILURE,
                       (out @ [\<lparr>f_label = i * 64, f_got = cs ! i, f_lo = lo, f_hi = hi\<rparr>]) @
                       violations_from (i + 1) cs lo hi)"
        using True bad by (intro "1.hyps") simp_all
      finally show ?thesis
        using True bad by (simp add: violations_from_step)
    next
      case good: False
      have "check_counters i cs lo hi (r0, out) = check_counters (i + 1) cs lo hi (r0, out)"
        using True good by (subst check_counters.simps) simp
      also have "\<dots> = (if violations_from (i + 1) cs lo hi = [] then r0 else EXIT_FAILURE,
                       out @ violations_from (i + 1) cs lo hi)"
        using True good by (intro "1.hyps") simp_all
      finally show ?thesis
        using True good by (simp add: violations_from_step)
    qed
  qed
qed

lemma violations_eq: "violations cs passes = violations_from 0 cs (passes - 1) (passes + 1)"
  by (simp only: violations_def violations_from_def SIZEOF_counters_16 not_le de_Morgan_conj
      mult.commute[of 64])

lemma finish_failures: "failures (finish e s) = violations (counters s) (bogo s)"
  by (simp add: finish_def Let_def check_counters_eq violations_eq stress_bogo_get_def)

lemma finish_rc:
  "rc (finish e s) = (if violations (counters s) (bogo s) = [] then EXIT_SUCCESS else EXIT_FAILURE)"
  by (simp add: finish_def Let_def check_counters_eq violations_eq stress_bogo_get_def)

lemma finish_metrics:
  "metrics (finish e s) =
     [\<lparr>m_index = 0, m_name = ''million gotos per sec'',
       m_value = ddiv (rate_of (bogo s) (dsub (t2 e) (t1 e))) (Finite 1000000),
       m_mean = STRESS_HARMONIC_MEAN\<rparr>]"
  by (simp add: finish_def Let_def stress_bogo_get_def)

lemma finish_final: "final (finish e s) = s"
  by (simp add: finish_def Let_def)

section \<open>Runs that leave the loop\<close>

lemma passes_counters:
  "counters ((pass e d ^^ n) s) = map (\<lambda>c. c + of_nat n) (counters s)"
proof (induction n)
  case 0
  then show ?case by (simp add: map_idI)
next
  case (Suc n)
  then show ?case by (simp add: pass_def add.assoc add.commute)
qed

lemma passes_bogo: "bogo ((pass e d ^^ n) s) = bogo s + of_nat n"
  by (induction n) (simp_all add: pass_def add.assoc add.commute)

lemma passes_fixed:
  "d \<noteq> STRESS_GOTO_RANDOM \<Longrightarrow>
   labels ((pass e d ^^ n) s) = labels s \<and> draws ((pass e d ^^ n) s) = draws s"
  by (induction n) (simp_all add: pass_def)

lemma initial_state_facts:
  "length (counters (initial_state d)) = 16"
  "labels (initial_state d) = labels_forward \<or> labels (initial_state d) = labels_backward"
  "polls (initial_state d) = 0"
  "bogo (initial_state d) = 0"
  "draws (initial_state d) = 0"
  "counters (initial_state d) = replicate 16 0"
  by (simp_all add: initial_state_def initial_labels_def SIZEOF_counters_16)

lemma run_exits:
  assumes "\<And>j. j < n \<Longrightarrow> stress_continue e j" and "\<not> stress_continue e n"
  shows "goto_loop e d (At 0) (initial_state d) = Some (Done, exit_state e d n)"
  using goto_loop_exits[where n = n and e = e and s = "initial_state d" and d = d] assms
  by (simp add: initial_state_facts exit_state_def)

lemma exit_state_facts:
  "counters (exit_state e d n) = replicate 16 (of_nat n)"
  "bogo (exit_state e d n) = of_nat n"
  "polls (exit_state e d n) = n + 1"
  by (simp_all add: exit_state_def passes_counters passes_bogo initial_state_facts)

lemma exit_state_fixed:
  "d \<noteq> STRESS_GOTO_RANDOM \<Longrightarrow>
   labels (exit_state e d n) = initial_labels d \<and> draws (exit_state e d n) = 0"
  using passes_fixed[where d = d and e = e and n = n and s = "initial_state d"]
  by (simp add: exit_state_def initial_state_def)

lemma first_false:
  assumes "\<not> P (n::nat)"
  obtains m where "m \<le> n" "\<not> P m" "\<And>j. j < m \<Longrightarrow> P j"
proof -
  let ?m = "LEAST m. \<not> P m"
  have "\<not> P ?m" using assms by (rule LeastI)
  moreover have "?m \<le> n" using assms by (rule Least_le)
  moreover have "\<And>j. j < ?m \<Longrightarrow> P j" using not_less_Least by blast
  ultimately show ?thesis using that by blast
qed

lemma stress_goto_exits:
  assumes "\<And>j. j < n \<Longrightarrow> stress_continue e j" and "\<not> stress_continue e n"
  shows "stress_goto st e = Some (Inr (finish e (exit_state e (goto_direction_of st) n)))"
  using run_exits[OF assms, of "goto_direction_of st"]
  by (simp add: stress_goto_def Let_def)

lemma violations_empty_iff:
  "violations cs p = [] \<longleftrightarrow> (\<forall>k<16. p - 1 \<le> cs ! k \<and> cs ! k \<le> p + 1)"
  by (auto simp add: violations_def filter_empty_conv simp del: upt_rec_numeral)

lemma violations_all:
  assumes "\<And>k. k < 16 \<Longrightarrow> \<not> (p - 1 \<le> cs ! k \<and> cs ! k \<le> p + 1)"
  shows "violations cs p =
         map (\<lambda>k. \<lparr>f_label = 64 * k, f_got = cs ! k, f_lo = p - 1, f_hi = p + 1\<rparr>) [0..<16]"
proof -
  have "filter (\<lambda>k. \<not> (p - 1 \<le> cs ! k \<and> cs ! k \<le> p + 1)) [0..<16] = [0..<16]"
    using assms by (simp add: filter_id_conv del: upt_rec_numeral)
  then show ?thesis by (simp only: violations_def)
qed

lemma goto_direction_of_Some: "st ''goto-direction'' = Some d \<Longrightarrow> goto_direction_of st = d"
  by (simp add: goto_direction_of_def stress_get_setting_def)

lemma goto_direction_of_None:
  "st ''goto-direction'' = None \<Longrightarrow> goto_direction_of st = STRESS_GOTO_RANDOM"
  by (simp add: goto_direction_of_def stress_get_setting_def)

section \<open>Runs that return at all\<close>

lemma goto_ptr_not_Done: "goto_ptr q \<noteq> Done"
  by (simp add: goto_ptr_def split: ptr.split)

lemma block_Done:
  assumes "block e d n s = (Done, s')"
  shows "\<not> stress_continue e (polls s)"
proof (cases "n = 0")
  case True
  with assms show ?thesis
    by (auto simp: block_def L0x000_def Let_def goto_ptr_not_Done split: if_splits)
next
  case False
  with assms show ?thesis
    by (auto simp: block_def G_eq goto_ptr_not_Done)
qed

lemma table_entry:
  assumes "t = labels_forward \<or> t = labels_backward" "n < 1024"
  shows "\<exists>m<1024. goto_ptr (t ! n) = At m"
  using assms by (auto simp: labels_forward_nth labels_backward_nth goto_ptr_def)

lemma block_inv:
  assumes lab: "labels s = labels_forward \<or> labels s = labels_backward"
    and n: "n < 1024"
    and blk: "block e d n s = (p', s')"
  shows "(labels s' = labels_forward \<or> labels s' = labels_backward) \<and>
         p' \<noteq> Fault \<and> (\<forall>m. p' = At m \<longrightarrow> m < 1024)"
proof (cases "n = 0")
  case False
  obtain m where m: "m < 1024" "goto_ptr (labels s ! n) = At m"
    using table_entry[OF lab n] by blast
  from False blk m lab show ?thesis
    by (auto simp: block_def G_eq)
next
  case True
  show ?thesis
  proof (cases "stress_continue e (polls s)")
    case False
    with True blk lab show ?thesis
      by (auto simp: block_def L0x000_def Let_def)
  next
    case cont: True
    let ?l = "if d = STRESS_GOTO_RANDOM
              then (if stress_mwc1 e (draws s) then labels_backward else labels_forward)
              else labels s"
    have l: "?l = labels_forward \<or> ?l = labels_backward" using lab by simp
    obtain m where m: "m < 1024" "goto_ptr (?l ! 0) = At m"
      using table_entry[OF l, of 0] by auto
    have "labels s' = ?l \<and> p' = goto_ptr (?l ! 0)"
      using True blk cont
      by (auto simp: block_def L0x000_def Let_def stress_bogo_inc_def split: if_splits)
    with l m show ?thesis by auto
  qed
qed

lemma loop_ends_Done_or_Fault:
  assumes "goto_loop e d p s = Some y"
  shows "fst y = Done \<or> fst y = Fault"
proof (rule goto_loop.raw_induct[where P = "\<lambda>e d p s y. fst y = Done \<or> fst y = Fault"])
  show "goto_loop e d p s = Some y" by fact
next
  fix f :: "env \<Rightarrow> int \<Rightarrow> pc \<Rightarrow> goto_state \<Rightarrow> (pc \<times> goto_state) option"
  fix e d p s y
  assume IH: "\<And>e d p s y. f e d p s = Some y \<Longrightarrow> fst y = Done \<or> fst y = Fault"
    and eq: "(case p of
                At n \<Rightarrow> (case block e d n s of (p', s') \<Rightarrow> f e d p' s')
              | Done \<Rightarrow> Some (Done, s)
              | Fault \<Rightarrow> Some (Fault, s)) = Some y"
  show "fst y = Done \<or> fst y = Fault"
  proof (cases p)
    case (At n)
    obtain p' s' where blk: "block e d n s = (p', s')" by (cases "block e d n s")
    with At eq have "f e d p' s' = Some y" by simp
    then show ?thesis by (rule IH)
  next
    case Done
    with eq show ?thesis by auto
  next
    case Fault
    with eq show ?thesis by auto
  qed
qed

lemma loop_Done_needs_false_poll:
  assumes "goto_loop e d p s = Some y"
  shows "p \<noteq> Done \<longrightarrow> fst y = Done \<longrightarrow> (\<exists>n. \<not> stress_continue e n)"
proof (rule goto_loop.raw_induct[where P = "\<lambda>e d p s y.
          p \<noteq> Done \<longrightarrow> fst y = Done \<longrightarrow> (\<exists>n. \<not> stress_continue e n)"])
  show "goto_loop e d p s = Some y" by fact
next
  fix f :: "env \<Rightarrow> int \<Rightarrow> pc \<Rightarrow> goto_state \<Rightarrow> (pc \<times> goto_state) option"
  fix e d p s y
  assume IH: "\<And>e d p s y. f e d p s = Some y \<Longrightarrow>
                p \<noteq> Done \<longrightarrow> fst y = Done \<longrightarrow> (\<exists>n. \<not> stress_continue e n)"
    and eq: "(case p of
                At n \<Rightarrow> (case block e d n s of (p', s') \<Rightarrow> f e d p' s')
              | Done \<Rightarrow> Some (Done, s)
              | Fault \<Rightarrow> Some (Fault, s)) = Some y"
  show "p \<noteq> Done \<longrightarrow> fst y = Done \<longrightarrow> (\<exists>n. \<not> stress_continue e n)"
  proof (cases p)
    case (At n)
    obtain p' s' where blk: "block e d n s = (p', s')" by (cases "block e d n s")
    with At eq have rec: "f e d p' s' = Some y" by simp
    show ?thesis
    proof (cases "p' = Done")
      case True
      with blk have "\<not> stress_continue e (polls s)" by (auto dest: block_Done)
      then show ?thesis by blast
    next
      case False
      with IH[OF rec] show ?thesis by simp
    qed
  next
    case Done
    then show ?thesis by simp
  next
    case Fault
    with eq show ?thesis by auto
  qed
qed

lemma loop_never_faults:
  assumes "goto_loop e d p s = Some y"
  shows "(labels s = labels_forward \<or> labels s = labels_backward) \<longrightarrow>
         (\<forall>n. p = At n \<longrightarrow> n < 1024) \<longrightarrow> p \<noteq> Fault \<longrightarrow> fst y \<noteq> Fault"
proof (rule goto_loop.raw_induct[where P = "\<lambda>e d p s y.
         (labels s = labels_forward \<or> labels s = labels_backward) \<longrightarrow>
         (\<forall>n. p = At n \<longrightarrow> n < 1024) \<longrightarrow> p \<noteq> Fault \<longrightarrow> fst y \<noteq> Fault"])
  show "goto_loop e d p s = Some y" by fact
next
  fix f :: "env \<Rightarrow> int \<Rightarrow> pc \<Rightarrow> goto_state \<Rightarrow> (pc \<times> goto_state) option"
  fix e d p s y
  assume IH: "\<And>e d p s y. f e d p s = Some y \<Longrightarrow>
         (labels s = labels_forward \<or> labels s = labels_backward) \<longrightarrow>
         (\<forall>n. p = At n \<longrightarrow> n < 1024) \<longrightarrow> p \<noteq> Fault \<longrightarrow> fst y \<noteq> Fault"
    and eq: "(case p of
                At n \<Rightarrow> (case block e d n s of (p', s') \<Rightarrow> f e d p' s')
              | Done \<Rightarrow> Some (Done, s)
              | Fault \<Rightarrow> Some (Fault, s)) = Some y"
  show "(labels s = labels_forward \<or> labels s = labels_backward) \<longrightarrow>
         (\<forall>n. p = At n \<longrightarrow> n < 1024) \<longrightarrow> p \<noteq> Fault \<longrightarrow> fst y \<noteq> Fault"
  proof (intro impI)
    assume lab: "labels s = labels_forward \<or> labels s = labels_backward"
      and bound: "\<forall>n. p = At n \<longrightarrow> n < 1024" and nf: "p \<noteq> Fault"
    show "fst y \<noteq> Fault"
    proof (cases p)
      case (At n)
      obtain p' s' where blk: "block e d n s = (p', s')" by (cases "block e d n s")
      with At eq have rec: "f e d p' s' = Some y" by simp
      from At bound have "n < 1024" by simp
      from block_inv[OF lab this blk] IH[OF rec] show ?thesis by simp
    next
      case Done
      with eq show ?thesis by auto
    next
      case Fault
      with nf show ?thesis by simp
    qed
  qed
qed

section \<open>The option and the active table\<close>

lemma list_options_table: "list_options 0 stress_goto_direction = '' forward, backward, random''"
  by (simp add: stress_goto_direction_def)

lemma find_direction_table:
  "find_direction opts stress_goto_direction =
     (if opts = ''forward'' then Some STRESS_GOTO_FORWARD
      else if opts = ''backward'' then Some STRESS_GOTO_BACKWARD
      else if opts = ''random'' then Some STRESS_GOTO_RANDOM
      else None)"
  by (simp add: stress_goto_direction_def)

lemma passes_random:
  "draws ((pass e STRESS_GOTO_RANDOM ^^ n) s) = draws s + n"
  "labels ((pass e STRESS_GOTO_RANDOM ^^ Suc n) s) =
     (if stress_mwc1 e (draws s + n) then labels_backward else labels_forward)"
proof -
  show d: "draws ((pass e STRESS_GOTO_RANDOM ^^ n) s) = draws s + n" for n
    by (induction n) (simp_all add: pass_def)
  show "labels ((pass e STRESS_GOTO_RANDOM ^^ Suc n) s) =
     (if stress_mwc1 e (draws s + n) then labels_backward else labels_forward)"
    by (simp add: pass_def d)
qed

lemma block_keeps_table:
  assumes "n \<noteq> 0 \<or> d \<noteq> STRESS_GOTO_RANDOM"
  shows "labels (snd (block e d n s)) = labels s \<and> draws (snd (block e d n s)) = draws s"
  using assms
  by (auto simp: block_def G_eq L0x000_def Let_def stress_bogo_inc_def)

lemma after_blocks_Suc:
  "after_blocks e d (Suc k) =
     (case after_blocks e d k of (p, s) \<Rightarrow> (case p of At n \<Rightarrow> block e d n s | _ \<Rightarrow> (p, s)))"
  by (simp add: after_blocks_def)

lemma goto_loop_Fault: "goto_loop e d Fault s = Some (Fault, s)"
  by (subst goto_loop.simps) simp

lemma goto_loop_after_blocks:
  "goto_loop e d (At 0) (initial_state d) =
     (case after_blocks e d k of (p, s) \<Rightarrow> goto_loop e d p s)"
proof (induction k)
  case 0
  show ?case by (simp add: after_blocks_def)
next
  case (Suc k)
  obtain p s where ps: "after_blocks e d k = (p, s)" by (cases "after_blocks e d k")
  show ?case
  proof (cases p)
    case (At n)
    with ps Suc show ?thesis
      by (simp add: after_blocks_Suc goto_loop_At)
  next
    case Done
    with ps Suc show ?thesis by (simp add: after_blocks_Suc)
  next
    case Fault
    with ps Suc show ?thesis by (simp add: after_blocks_Suc)
  qed
qed

lemma after_blocks_fixed:
  assumes "d \<noteq> STRESS_GOTO_RANDOM"
  shows "labels (snd (after_blocks e d k)) = initial_labels d \<and>
         draws (snd (after_blocks e d k)) = 0"
proof (induction k)
  case 0
  show ?case by (simp add: after_blocks_def initial_state_def)
next
  case (Suc k)
  obtain p s where ps: "after_blocks e d k = (p, s)" by (cases "after_blocks e d k")
  show ?case
  proof (cases p)
    case (At n)
    with ps Suc block_keeps_table[of n d e s] assms show ?thesis
      by (simp add: after_blocks_Suc)
  next
    case Done
    with ps Suc show ?thesis by (simp add: after_blocks_Suc)
  next
    case Fault
    with ps Suc show ?thesis by (simp add: after_blocks_Suc)
  qed
qed

lemma upt_16: "[0..<16] = [0, 1, 2, 3, 4, 5, 6, 7, 8, 9, 10, 11, 12, 13, 14, 15::nat]"
  by (simp add: upt_conv_Cons)

section \<open>The sanity check and the range of the specification\<close>

lemma uint_minus_one: "(p::u64) \<noteq> 0 \<Longrightarrow> uint (p - 1) = uint p - 1"
proof -
  assume p: "p \<noteq> 0"
  then have "unat (p - 1) = unat p - 1" by (simp add: unat_minus_one)
  moreover have "0 < unat p" using p by (simp add: unat_gt_0)
  ultimately have "int (unat (p - 1)) = int (unat p) - 1" by simp
  then show ?thesis by simp
qed

lemma uint_plus_one: "(p::u64) + 1 \<noteq> 0 \<Longrightarrow> uint (p + 1) = uint p + 1"
proof -
  assume "p + 1 \<noteq> 0"
  then have "1 + p \<noteq> 0" by (simp add: add.commute)
  then have "unat (1 + p) = Suc (unat p)" by (rule unatSuc)
  then have "int (unat (p + 1)) = int (unat p) + 1" by (simp add: add.commute)
  then show ?thesis by simp
qed

lemma violations_as_spec:
  assumes "passes \<noteq> 0" "passes + 1 \<noteq> 0"
  shows "map as_violation (violations cs passes) = spec_violations cs passes"
proof -
  have band: "(passes - 1 \<le> c \<and> c \<le> passes + 1) \<longleftrightarrow>
              (uint passes - 1 \<le> uint c \<and> uint c \<le> uint passes + 1)" for c
    by (simp add: word_le_def uint_minus_one[OF assms(1)] uint_plus_one[OF assms(2)])
  have "filter (\<lambda>k. \<not> (passes - 1 \<le> cs ! k \<and> cs ! k \<le> passes + 1)) [0..<16] =
        filter (\<lambda>k. \<not> (uint passes - 1 \<le> uint (cs ! k) \<and> uint (cs ! k) \<le> uint passes + 1))
          [0..<16]"
    by (rule filter_cong[OF refl]) (simp only: band)
  then show ?thesis
    by (simp only: violations_def spec_violations_def map_map o_def as_violation_def
        failure.simps uint_minus_one[OF assms(1)] uint_plus_one[OF assms(2)])
qed

lemma spec_violations_empty_iff:
  "spec_violations cs p = [] \<longleftrightarrow>
     (\<forall>k<16. uint p - 1 \<le> uint (cs ! k) \<and> uint (cs ! k) \<le> uint p + 1)"
  by (auto simp add: spec_violations_def filter_empty_conv simp del: upt_rec_numeral)

section \<open>Rounding to a double\<close>

lemma bitlen_nonneg: "0 \<le> bitlen n"
proof (induction n rule: bitlen.induct)
  case (1 n)
  show ?case
  proof (cases "n \<le> 0")
    case True
    then show ?thesis by (subst bitlen.simps) simp
  next
    case False
    with 1 show ?thesis by (subst bitlen.simps) simp
  qed
qed

lemma bitlen_pos: "0 < n \<Longrightarrow> 1 \<le> bitlen n"
  using bitlen_nonneg[of "n div 2"] by (subst bitlen.simps) simp

lemma bitlen_bounds:
  "0 < n \<Longrightarrow> 2 ^ nat (bitlen n - 1) \<le> n \<and> n < 2 ^ nat (bitlen n)"
proof (induction n rule: bitlen.induct)
  case (1 n)
  have unfold: "bitlen n = 1 + bitlen (n div 2)"
    using "1.prems" by (subst bitlen.simps) simp
  show ?case
  proof (cases "n = 1")
    case True
    have "bitlen (1 div 2) = 0" by (subst bitlen.simps) simp
    with True unfold show ?thesis by simp
  next
    case False
    with "1.prems" have h: "0 < n div 2" by simp
    let ?b = "bitlen (n div 2)"
    have b: "1 \<le> ?b" using h by (rule bitlen_pos)
    from "1.IH" "1.prems" h
    have IH: "2 ^ nat (?b - 1) \<le> n div 2" "n div 2 < 2 ^ nat ?b" by simp_all
    have nb: "nat ?b = Suc (nat (?b - 1))" using b by simp
    have "(2::int) ^ nat ?b = 2 * 2 ^ nat (?b - 1)" by (subst nb) simp
    also have "\<dots> \<le> 2 * (n div 2)" using IH(1) by simp
    also have "\<dots> \<le> n" by simp
    finally have lo: "2 ^ nat ?b \<le> n" .
    have "n < 2 * (n div 2 + 1)" by simp
    also have "\<dots> \<le> 2 * 2 ^ nat ?b" using IH(2) by simp
    also have "\<dots> = 2 ^ nat (1 + ?b)" using b by (simp add: nat_add_distrib)
    finally have hi: "n < 2 ^ nat (1 + ?b)" .
    from lo hi unfold show ?thesis by simp
  qed
qed

lemma pow2_pos: "0 < pow2 k"
  by (simp add: pow2_def)

lemma pow2_nonneg_eq: "0 \<le> k \<Longrightarrow> pow2 k = 2 ^ nat k"
  by (simp add: pow2_def)

lemma pow2_nonpos_eq: "k \<le> 0 \<Longrightarrow> pow2 k = 1 / 2 ^ nat (- k)"
  by (cases "k = 0") (simp_all add: pow2_def)

lemma ilog2_bounds:
  assumes "0 < x"
  shows "pow2 (ilog2 x) \<le> x \<and> x < pow2 (ilog2 x + 1)"
proof (cases "1 \<le> x")
  case True
  let ?n = "\<lfloor>x\<rfloor>"
  let ?b = "bitlen ?n"
  have n: "0 < ?n" using True by simp
  have b: "1 \<le> ?b" using n by (rule bitlen_pos)
  from bitlen_bounds[OF n] have lo: "2 ^ nat (?b - 1) \<le> ?n" and hi: "?n < 2 ^ nat ?b"
    by simp_all
  have "(2::rat) ^ nat (?b - 1) = of_int (2 ^ nat (?b - 1))" by simp
  also have "\<dots> \<le> of_int ?n" using lo by (simp only: of_int_le_iff)
  also have "\<dots> \<le> x" by simp
  finally have 1: "2 ^ nat (?b - 1) \<le> x" .
  from hi have "?n + 1 \<le> 2 ^ nat ?b" by simp
  then have "(of_int (?n + 1) :: rat) \<le> of_int (2 ^ nat ?b)" by (simp only: of_int_le_iff)
  moreover have "x < of_int (?n + 1)" by linarith
  ultimately have 2: "x < 2 ^ nat ?b" by simp
  have e: "ilog2 x = ?b - 1" using True by (simp add: ilog2_def)
  show ?thesis
    unfolding e using 1 2 b by (simp add: pow2_nonneg_eq)
next
  case False
  let ?z = "1 / x"
  let ?n = "\<lceil>?z\<rceil> - 1"
  let ?b = "bitlen ?n"
  have z: "1 < ?z" using False assms by simp
  have n: "0 < ?n" using z by linarith
  have b: "1 \<le> ?b" using n by (rule bitlen_pos)
  from bitlen_bounds[OF n] have lo: "2 ^ nat (?b - 1) \<le> ?n" and hi: "?n < 2 ^ nat ?b"
    by simp_all
  have "(2::rat) ^ nat (?b - 1) = of_int (2 ^ nat (?b - 1))" by simp
  also have "\<dots> \<le> of_int ?n" using lo by (simp only: of_int_le_iff)
  also have "\<dots> < ?z" by linarith
  finally have 1: "2 ^ nat (?b - 1) < ?z" .
  from hi have "?n + 1 \<le> 2 ^ nat ?b" by simp
  then have "(of_int (?n + 1) :: rat) \<le> of_int (2 ^ nat ?b)" by (simp only: of_int_le_iff)
  moreover have "?z \<le> of_int (?n + 1)" by simp
  ultimately have "?z \<le> of_int (2 ^ nat ?b)" by (rule order_trans[rotated])
  then have 2: "?z \<le> 2 ^ nat ?b" by simp
  have e: "ilog2 x = - ?b" using False by (simp add: ilog2_def)
  have p1: "pow2 (- ?b) = 1 / 2 ^ nat ?b"
    using b by (simp add: pow2_nonpos_eq)
  have p2: "pow2 (- ?b + 1) = 1 / 2 ^ nat (?b - 1)"
    using b by (simp add: pow2_nonpos_eq)
  have "1 / 2 ^ nat ?b \<le> x"
    using 2 assms by (simp add: field_simps)
  moreover have "x < 1 / 2 ^ nat (?b - 1)"
    using 1 assms by (simp add: field_simps)
  ultimately show ?thesis
    unfolding e p1 p2 by simp
qed

lemma round_half_even_near: "\<bar>of_int (round_half_even y) - y\<bar> \<le> 1 / 2"
proof -
  have "of_int \<lfloor>y\<rfloor> \<le> y" "y < of_int \<lfloor>y\<rfloor> + 1" by linarith+
  then show ?thesis
    by (auto simp: round_half_even_def Let_def)
qed

lemma round_half_even_mono_bound:
  assumes "0 \<le> y" "y \<le> of_int k"
  shows "0 \<le> round_half_even y \<and> round_half_even y \<le> k"
proof -
  have f: "of_int \<lfloor>y\<rfloor> \<le> y" "y < of_int \<lfloor>y\<rfloor> + 1" by linarith+
  have f0: "0 \<le> \<lfloor>y\<rfloor>" using assms(1) by simp
  have fk: "\<lfloor>y\<rfloor> \<le> k" using assms(2) by (simp add: floor_le_iff)
  show ?thesis
  proof (cases "\<lfloor>y\<rfloor> = k")
    case True
    with f assms(2) have "y - of_int \<lfloor>y\<rfloor> = 0" by simp
    with True f0 show ?thesis by (simp add: round_half_even_def Let_def)
  next
    case False
    with fk have "\<lfloor>y\<rfloor> + 1 \<le> k" by simp
    with f0 show ?thesis by (auto simp: round_half_even_def Let_def)
  qed
qed

lemma pow2_power_int: "pow2 k = power_int 2 k"
  by (simp add: pow2_def power_int_def inverse_eq_divide power_one_over)

lemma pow2_add: "pow2 (j + k) = pow2 j * pow2 k"
  by (simp add: pow2_power_int power_int_add)

lemma pow2_mono: "j \<le> k \<Longrightarrow> pow2 j \<le> pow2 k"
  by (simp add: pow2_power_int power_int_increasing)

lemma pow2_53: "pow2 53 = 2 ^ 53"
  by (simp add: pow2_def)

lemma pow2_half: "pow2 (k - 53) = pow2 (k - 52) / 2"
proof -
  have "pow2 (k - 52) = pow2 ((k - 53) + 1)" by simp
  also have "\<dots> = pow2 (k - 53) * pow2 1" by (rule pow2_add)
  finally show ?thesis by (simp add: pow2_def)
qed

lemma to_double_pos_rounds:
  assumes "0 < a"
  defines "e \<equiv> max (ilog2 a) (- 1022)"
  defines "m \<equiv> round_half_even (a / pow2 (e - 52))"
  shows "0 \<le> m \<and> m \<le> 2 ^ 53 \<and> \<bar>of_int m * pow2 (e - 52) - a\<bar> \<le> pow2 (e - 53)"
proof -
  let ?u = "pow2 (e - 52)"
  have u: "0 < ?u" by (rule pow2_pos)
  have "a < pow2 (ilog2 a + 1)" using ilog2_bounds[OF assms(1)] by simp
  also have "\<dots> \<le> pow2 (e + 1)" by (rule pow2_mono) (simp add: e_def)
  also have "pow2 (e + 1) = ?u * pow2 53"
    using pow2_add[of "e - 52" 53] by (simp add: add.commute)
  finally have "a < ?u * 2 ^ 53" by (simp add: pow2_53)
  then have lt: "a / ?u < 2 ^ 53" using u by (simp add: field_simps)
  have ge: "0 \<le> a / ?u" using assms(1) u by simp
  have "0 \<le> round_half_even (a / ?u) \<and> round_half_even (a / ?u) \<le> 2 ^ 53"
    using ge lt by (intro round_half_even_mono_bound) simp_all
  then have m: "0 \<le> m" "m \<le> 2 ^ 53" by (simp_all add: m_def)
  have "\<bar>of_int m * ?u - a\<bar> = \<bar>of_int m - a / ?u\<bar> * ?u"
    using u by (simp add: abs_mult[symmetric] field_simps abs_of_pos)
  also have "\<dots> \<le> 1 / 2 * ?u"
    using round_half_even_near[of "a / ?u"] u
    by (intro mult_right_mono) (simp_all add: m_def)
  also have "\<dots> = pow2 (e - 53)" by (simp add: pow2_half)
  finally show ?thesis using m by simp
qed

text \<open>
  Rounding is correct: the result of \<open>to_double\<close> is an infinity or a multiple
  \<open>m * 2 ^ (e - 52)\<close> with \<open>\<bar>m\<bar> \<le> 2 ^ 53\<close> in the binade \<open>e\<close> of the argument, at most
  half a unit in the last place away from it.
\<close>

lemma to_double_rounds:
  assumes "x \<noteq> 0"
  defines "e \<equiv> max (ilog2 \<bar>x\<bar>) (- 1022)"
  shows "to_double x = PInf \<or> to_double x = NInf \<or>
         (\<exists>m. \<bar>m\<bar> \<le> 2 ^ 53 \<and> to_double x = Finite (of_int m * pow2 (e - 52)) \<and>
              \<bar>of_int m * pow2 (e - 52) - x\<bar> \<le> pow2 (e - 53))"
proof -
  let ?a = "\<bar>x\<bar>"
  let ?m = "round_half_even (?a / pow2 (e - 52))"
  let ?r = "of_int ?m * pow2 (e - 52)"
  have a: "0 < ?a" using assms(1) by simp
  from to_double_pos_rounds[OF a]
  have m: "0 \<le> ?m" "?m \<le> 2 ^ 53" and near: "\<bar>?r - ?a\<bar> \<le> pow2 (e - 53)"
    by (simp_all add: e_def)
  have td: "to_double x =
      (if pow2 1024 \<le> ?r then (if 0 < x then PInf else NInf)
       else Finite (if 0 < x then ?r else - ?r))"
    using assms(1) by (simp add: to_double_def Let_def e_def)
  show ?thesis
  proof (cases "pow2 1024 \<le> ?r")
    case True
    with td show ?thesis by simp
  next
    case False
    show ?thesis
    proof (cases "0 < x")
      case True
      with td False near m show ?thesis
        by (intro disjI2 exI[of _ ?m]) simp
    next
      case neg: False
      with assms(1) have x: "x < 0" by simp
      have "of_int (- ?m) * pow2 (e - 52) - x = - (?r - ?a)"
        using x by simp
      then have "\<bar>of_int (- ?m) * pow2 (e - 52) - x\<bar> = \<bar>?r - ?a\<bar>"
        by (simp only: abs_minus_cancel)
      with td False near m neg show ?thesis
        by (intro disjI2 exI[of _ "- ?m"]) simp
    qed
  qed
qed

subsection \<open>Evaluation\<close>

lemma floor_rat_numeral: "\<lfloor>numeral a / numeral b :: rat\<rfloor> = numeral a div numeral b"
  using floor_divide_of_int_eq[of "numeral a" "numeral b", where ?'a = rat] by simp

lemma ceiling_rat_numeral: "\<lceil>numeral a / numeral b :: rat\<rceil> = - (- numeral a div numeral b)"
  using floor_divide_of_int_eq[of "- numeral a" "numeral b", where ?'a = rat]
  by (simp add: ceiling_def)

lemma to_double_pos:
  assumes "0 < x"
    and "max (ilog2 x) (- 1022) = e"
    and "round_half_even (x / pow2 (e - 52)) = m"
    and "of_int m * pow2 (e - 52) < pow2 1024"
  shows "to_double x = Finite (of_int m * pow2 (e - 52))"
  using assms by (simp add: to_double_def Let_def)

lemma to_double_10: "to_double 10 = Finite 10"
proof -
  have e: "max (ilog2 10) (- 1022) = 3"
    by (simp add: ilog2_def bitlen.simps)
  have m: "round_half_even (10 / pow2 (3 - 52)) = 5629499534213120"
    by (simp add: pow2_def round_half_even_def Let_def)
  have "to_double 10 = Finite (of_int 5629499534213120 * pow2 (3 - 52))"
    by (rule to_double_pos[OF _ e m]) (simp_all add: pow2_def)
  then show ?thesis by (simp add: pow2_def)
qed

lemma to_double_10240: "to_double 10240 = Finite 10240"
proof -
  have e: "max (ilog2 10240) (- 1022) = 13"
    by (simp add: ilog2_def bitlen.simps)
  have m: "round_half_even (10240 / pow2 (13 - 52)) = 5629499534213120"
    by (simp add: pow2_def round_half_even_def Let_def)
  have "to_double 10240 = Finite (of_int 5629499534213120 * pow2 (13 - 52))"
    by (rule to_double_pos[OF _ e m]) (simp_all add: pow2_def)
  then show ?thesis by (simp add: pow2_def)
qed

lemma to_double_20480: "to_double 20480 = Finite 20480"
proof -
  have e: "max (ilog2 20480) (- 1022) = 14"
    by (simp add: ilog2_def bitlen.simps)
  have m: "round_half_even (20480 / pow2 (14 - 52)) = 5629499534213120"
    by (simp add: pow2_def round_half_even_def Let_def)
  have "to_double 20480 = Finite (of_int 5629499534213120 * pow2 (14 - 52))"
    by (rule to_double_pos[OF _ e m]) (simp_all add: pow2_def)
  then show ?thesis by (simp add: pow2_def)
qed

lemma to_double_0_02048:
  "to_double (2048 / 100000) = Finite (5902958103587057 / 2 ^ 58)"
proof -
  have e: "max (ilog2 (2048 / 100000)) (- 1022) = - 6"
    by (simp add: ilog2_def bitlen.simps ceiling_rat_numeral)
  have m: "round_half_even (2048 / 100000 / pow2 (- 6 - 52)) = 5902958103587057"
    by (simp add: pow2_def round_half_even_def Let_def floor_rat_numeral)
  have "to_double (2048 / 100000) = Finite (of_int 5902958103587057 * pow2 (- 6 - 52))"
    by (rule to_double_pos[OF _ e m]) (simp_all add: pow2_def)
  then show ?thesis by (simp add: pow2_def)
qed

lemma metric_example:
  "ddiv (rate_of 10 (Finite (1 / 2))) (Finite 1000000) = to_double (2048 / 100000)"
proof -
  have "rate_of 10 (Finite (1 / 2)) = Finite 20480"
    by (simp add: rate_of_def double_of_u64_def dmul_def to_double_10 to_double_10240
        to_double_20480)
  then show ?thesis by simp
qed

lemma to_double_half: "to_double (1 / 2) = Finite (1 / 2)"
proof -
  have e: "max (ilog2 (1 / 2)) (- 1022) = - 1"
    by (simp add: ilog2_def bitlen.simps)
  have m: "round_half_even (1 / 2 / pow2 (- 1 - 52)) = 4503599627370496"
    by (simp add: pow2_def round_half_even_def Let_def)
  have "to_double (1 / 2) = Finite (of_int 4503599627370496 * pow2 (- 1 - 52))"
    by (rule to_double_pos[OF _ e m]) (simp_all add: pow2_def)
  then show ?thesis by (simp add: pow2_def)
qed

text \<open>Some known roundings: \<open>0.1\<close> is \<open>0x3FB999999999999A\<close>, integers above \<open>2\<^sup>5\<^sup>3\<close> lose
  their last bits to the even neighbour.\<close>

lemma to_double_tenth: "to_double (1 / 10) = Finite (3602879701896397 / 2 ^ 55)"
proof -
  have e: "max (ilog2 (1 / 10)) (- 1022) = - 4"
    by (simp add: ilog2_def bitlen.simps)
  have m: "round_half_even (1 / 10 / pow2 (- 4 - 52)) = 7205759403792794"
    by (simp add: pow2_def round_half_even_def Let_def floor_rat_numeral)
  have "to_double (1 / 10) = Finite (of_int 7205759403792794 * pow2 (- 4 - 52))"
    by (rule to_double_pos[OF _ e m]) (simp_all add: pow2_def)
  then show ?thesis by (simp add: pow2_def)
qed

lemma to_double_above_2_53: "to_double (2 ^ 53 + 1) = Finite (2 ^ 53)"
proof -
  have e: "max (ilog2 (2 ^ 53 + 1)) (- 1022) = 53"
    by (simp add: ilog2_def bitlen.simps)
  have m: "round_half_even ((2 ^ 53 + 1) / pow2 (53 - 52)) = 4503599627370496"
    by (simp add: pow2_def round_half_even_def Let_def floor_rat_numeral)
  have "to_double (2 ^ 53 + 1) = Finite (of_int 4503599627370496 * pow2 (53 - 52))"
    by (rule to_double_pos[OF _ e m]) (simp_all add: pow2_def)
  then show ?thesis by (simp add: pow2_def)
qed

section \<open>The claims\<close>

text \<open>
  C2. For every index \<open>i\<close> in \<open>[0, 1024)\<close> the table builder leaves
  \<open>forward[i] = (i + 1) mod 1024\<close> and \<open>backward[i] = (i + 1023) mod 1024\<close> (as the
  addresses of the labels with these numbers). The builder is a function of its loop
  bounds alone: it reads nothing but \<open>MAX_LABELS\<close> and the literal table.
\<close>

theorem jump_tables_entries:
  "i < 1024 \<Longrightarrow>
     labels_forward ! i = Label ((i + 1) mod 1024) \<and>
     labels_backward ! i = Label ((i + 1023) mod 1024)"
  by (simp add: labels_forward_nth labels_backward_nth)

theorem jump_tables_entries_witness:
  "(1023::nat) < 1024 \<and> labels_forward ! 1023 = Label 0 \<and> labels_backward ! 1023 = Label 1022"
  using jump_tables_entries[of 1023] by simp

text \<open>
  C3. Each jump table is a single cycle through all 1024 indices: from every start index
  \<open>i\<close> in \<open>[0, 1024)\<close>, the indices reached by 0, 1, ..., 1023 jumps along the forward
  table are pairwise different and are exactly the indices of \<open>[0, 1024)\<close>, and the
  1024th jump is back at \<open>i\<close>; the same holds along the backward table.
\<close>

theorem tables_are_single_cycles:
  "i < MAX_LABELS \<Longrightarrow>
     distinct (visited labels_forward i) \<and>
     set (visited labels_forward i) = At ` {0..<MAX_LABELS} \<and>
     follow labels_forward MAX_LABELS i = At i \<and>
     distinct (visited labels_backward i) \<and>
     set (visited labels_backward i) = At ` {0..<MAX_LABELS} \<and>
     follow labels_backward MAX_LABELS i = At i"
proof -
  assume i: "i < MAX_LABELS"
  then have i': "i < 1024" by (simp add: MAX_LABELS_def)
  have f: "distinct (visited labels_forward i) \<and>
           set (visited labels_forward i) = At ` {0..<MAX_LABELS}"
    by (rule cycle_of[OF visited_forward[OF i] inj_forward]) (simp add: MAX_LABELS_def)
  have b: "distinct (visited labels_backward i) \<and>
           set (visited labels_backward i) = At ` {0..<MAX_LABELS}"
    by (rule cycle_of[OF visited_backward[OF i] inj_backward]) (simp add: MAX_LABELS_def)
  have "follow labels_forward MAX_LABELS i = At ((i + MAX_LABELS) mod 1024)"
    using i' by (rule follow_forward)
  also have "(i + MAX_LABELS) mod 1024 = i"
    using i' by (simp add: MAX_LABELS_def)
  finally have rf: "follow labels_forward MAX_LABELS i = At i" .
  have "MAX_LABELS \<le> 1024" by (simp add: MAX_LABELS_def)
  with i' have "follow labels_backward MAX_LABELS i = At ((i + 1024 - MAX_LABELS) mod 1024)"
    by (rule follow_backward)
  also have "(i + 1024 - MAX_LABELS) mod 1024 = i"
    using i' by (simp add: MAX_LABELS_def)
  finally have rb: "follow labels_backward MAX_LABELS i = At i" .
  from f b rf rb show ?thesis by simp
qed

theorem tables_are_single_cycles_witness:
  "(5::nat) < MAX_LABELS \<and>
     distinct (visited labels_forward 5) \<and>
     set (visited labels_forward 5) = At ` {0..<MAX_LABELS} \<and>
     follow labels_forward MAX_LABELS 5 = At 5 \<and>
     distinct (visited labels_backward 5) \<and>
     set (visited labels_backward 5) = At ` {0..<MAX_LABELS} \<and>
     follow labels_backward MAX_LABELS 5 = At 5"
proof -
  have h: "(5::nat) < MAX_LABELS" by (simp add: MAX_LABELS_def)
  from h tables_are_single_cycles[OF h] show ?thesis by (rule conjI)
qed

text \<open>
  C1. A run in direction Forward whose polls of \<^verbatim>\<open>stress_continue\<close> answer true five
  times and false the sixth time makes exactly five passes: it returns after six
  polls with the pass counter at 5 and each of the 16 sample counters at 5; the sanity
  check finds no violation, prints no failure and the result is success.
\<close>

theorem forward_five_passes:
  assumes "st ''goto-direction'' = Some STRESS_GOTO_FORWARD"
    and "\<forall>k<5. stress_continue e k"
    and "\<not> stress_continue e 5"
  shows "\<exists>r. stress_goto st e = Some (Inr r) \<and>
             polls (final r) = 6 \<and>
             bogo (final r) = 5 \<and>
             counters (final r) = replicate 16 5 \<and>
             labels (final r) = labels_forward \<and>
             violations (counters (final r)) (bogo (final r)) = [] \<and>
             failures r = [] \<and>
             rc r = EXIT_SUCCESS"
proof -
  let ?s = "exit_state e STRESS_GOTO_FORWARD 5"
  have d: "goto_direction_of st = STRESS_GOTO_FORWARD"
    using assms(1) by (rule goto_direction_of_Some)
  have run: "stress_goto st e = Some (Inr (finish e ?s))"
    using stress_goto_exits[of 5 e st] assms(2,3) d by simp
  have cs: "counters ?s = replicate 16 5" and b: "bogo ?s = 5" and p: "polls ?s = 6"
    by (simp_all add: exit_state_facts)
  have l: "labels ?s = labels_forward"
    using exit_state_fixed[of STRESS_GOTO_FORWARD e 5]
    by (simp add: initial_labels_def STRESS_GOTO_FORWARD_def STRESS_GOTO_RANDOM_def)
  have v: "violations (counters ?s) (bogo ?s) = []"
    unfolding cs b by (simp add: violations_empty_iff)
  show ?thesis
    using run cs b p l v
    by (simp add: finish_failures finish_rc finish_final)
qed

theorem forward_five_passes_witness:
  "\<exists>r. stress_goto [''goto-direction'' \<mapsto> STRESS_GOTO_FORWARD]
          \<lparr>stress_continue = (\<lambda>k. k < 5), stress_mwc1 = (\<lambda>k. False),
           t1 = Finite 0, t2 = Finite 1\<rparr> = Some (Inr r) \<and>
       polls (final r) = 6 \<and>
       bogo (final r) = 5 \<and>
       counters (final r) = replicate 16 5 \<and>
       labels (final r) = labels_forward \<and>
       violations (counters (final r)) (bogo (final r)) = [] \<and>
       failures r = [] \<and>
       rc r = EXIT_SUCCESS"
  using forward_five_passes[of "[''goto-direction'' \<mapsto> STRESS_GOTO_FORWARD]"
      "\<lparr>stress_continue = (\<lambda>k. k < 5), stress_mwc1 = (\<lambda>k. False),
        t1 = Finite 0, t2 = Finite 1\<rparr>"]
  by simp

text \<open>
  C6. The loop is left only at its head, so a pass once started is completed: for
  every direction and every sequence of answers of \<^verbatim>\<open>stress_continue\<close>, if some poll
  answers false then the loop is left, and whenever the loop is left it is left by the
  \<^verbatim>\<open>break\<close> with each of the 16 sample counters equal to the pass counter; the same
  holds of the counters \<^verbatim>\<open>stress_goto\<close> reports when it returns.
\<close>

theorem counters_equal_pass_count:
  "(\<not> stress_continue e n \<longrightarrow>
      (\<exists>s. goto_loop e d (At 0) (initial_state d) = Some (Done, s) \<and>
           length (counters s) = 16 \<and> (\<forall>k<16. counters s ! k = bogo s))) \<and>
   (goto_loop e d (At 0) (initial_state d) = Some (p, s) \<longrightarrow>
      p = Done \<and> length (counters s) = 16 \<and> (\<forall>k<16. counters s ! k = bogo s)) \<and>
   (stress_goto st e = Some x \<longrightarrow>
      (\<exists>r. x = Inr r \<and> length (counters (final r)) = 16 \<and>
           (\<forall>k<16. counters (final r) ! k = bogo (final r))))"
proof -
  have total: "\<exists>m. goto_loop e d (At 0) (initial_state d) = Some (Done, exit_state e d m)"
    if "\<not> stress_continue e n" for e d n
  proof -
    from that obtain m where "\<not> stress_continue e m" "\<And>j. j < m \<Longrightarrow> stress_continue e j"
      using first_false[of "stress_continue e" n] by blast
    then have "goto_loop e d (At 0) (initial_state d) = Some (Done, exit_state e d m)"
      by (intro run_exits) simp_all
    then show ?thesis ..
  qed
  have eq: "length (counters (exit_state e d m)) = 16 \<and>
            (\<forall>k<16. counters (exit_state e d m) ! k = bogo (exit_state e d m))" for e d m
    by (simp add: exit_state_facts)
  have partial: "p = Done \<and> length (counters s) = 16 \<and> (\<forall>k<16. counters s ! k = bogo s)"
    if run: "goto_loop e d (At 0) (initial_state d) = Some (p, s)" for e d p s
  proof -
    have "p \<noteq> Fault"
      using loop_never_faults[OF run] by (simp add: initial_state_facts)
    moreover have "p = Done \<or> p = Fault"
      using loop_ends_Done_or_Fault[OF run] by simp
    ultimately have p: "p = Done" by simp
    then obtain n where "\<not> stress_continue e n"
      using loop_Done_needs_false_poll[OF run] by auto
    from total[OF this, of d] run obtain m where "s = exit_state e d m" by auto
    with p eq[of e d m] show ?thesis by simp
  qed
  have A: "\<not> stress_continue e n \<longrightarrow>
      (\<exists>s. goto_loop e d (At 0) (initial_state d) = Some (Done, s) \<and>
           length (counters s) = 16 \<and> (\<forall>k<16. counters s ! k = bogo s))"
    using total[of e n d] eq by blast
  have B: "goto_loop e d (At 0) (initial_state d) = Some (p, s) \<longrightarrow>
      p = Done \<and> length (counters s) = 16 \<and> (\<forall>k<16. counters s ! k = bogo s)"
    using partial by blast
  have C: "stress_goto st e = Some x \<longrightarrow>
      (\<exists>r. x = Inr r \<and> length (counters (final r)) = 16 \<and>
           (\<forall>k<16. counters (final r) ! k = bogo (final r)))"
  proof
    assume x: "stress_goto st e = Some x"
    then obtain p' s' where
      run: "goto_loop e (goto_direction_of st) (At 0) (initial_state (goto_direction_of st)) =
            Some (p', s')"
      by (auto simp: stress_goto_def Let_def split: option.splits)
    from partial[OF run] have p': "p' = Done" and
      c: "length (counters s') = 16 \<and> (\<forall>k<16. counters s' ! k = bogo s')" by simp_all
    from x run p' have "x = Inr (finish e s')"
      by (simp add: stress_goto_def Let_def)
    with c show "\<exists>r. x = Inr r \<and> length (counters (final r)) = 16 \<and>
           (\<forall>k<16. counters (final r) ! k = bogo (final r))"
      by (simp add: finish_final)
  qed
  from A B C show ?thesis by blast
qed

theorem counters_equal_pass_count_witness:
  "(\<exists>s. goto_loop \<lparr>stress_continue = (\<lambda>k. k < 3), stress_mwc1 = (\<lambda>k. even k),
                       t1 = Finite 0, t2 = Finite 1\<rparr>
              STRESS_GOTO_RANDOM (At 0) (initial_state STRESS_GOTO_RANDOM) = Some (Done, s) \<and>
        length (counters s) = 16 \<and> (\<forall>k<16. counters s ! k = bogo s)) \<and>
   (\<exists>s. goto_loop \<lparr>stress_continue = (\<lambda>k. k < 3), stress_mwc1 = (\<lambda>k. even k),
                       t1 = Finite 0, t2 = Finite 1\<rparr>
              STRESS_GOTO_RANDOM (At 0) (initial_state STRESS_GOTO_RANDOM) = Some (Done, s) \<and>
        bogo s = 3 \<and> length (counters s) = 16 \<and> (\<forall>k<16. counters s ! k = bogo s)) \<and>
   (\<exists>r. stress_goto Map.empty
              \<lparr>stress_continue = (\<lambda>k. k < 3), stress_mwc1 = (\<lambda>k. even k),
               t1 = Finite 0, t2 = Finite 1\<rparr> = Some (Inr r) \<and>
        length (counters (final r)) = 16 \<and>
        (\<forall>k<16. counters (final r) ! k = bogo (final r)))"
proof -
  let ?e = "\<lparr>stress_continue = (\<lambda>k. k < 3), stress_mwc1 = (\<lambda>k. even k),
             t1 = Finite 0, t2 = Finite 1\<rparr>"
  let ?s = "exit_state ?e STRESS_GOTO_RANDOM 3"
  have loop: "goto_loop ?e STRESS_GOTO_RANDOM (At 0) (initial_state STRESS_GOTO_RANDOM) =
              Some (Done, ?s)"
    by (rule run_exits) simp_all
  have run: "stress_goto Map.empty ?e = Some (Inr (finish ?e ?s))"
    using stress_goto_exits[of 3 ?e Map.empty] by (simp add: goto_direction_of_None)
  note t = counters_equal_pass_count[of ?e 3 STRESS_GOTO_RANDOM Done ?s Map.empty
      "Inr (finish ?e ?s)"]
  from t[THEN conjunct1]
  have 1: "\<exists>s. goto_loop ?e STRESS_GOTO_RANDOM (At 0) (initial_state STRESS_GOTO_RANDOM) =
                  Some (Done, s) \<and>
                length (counters s) = 16 \<and> (\<forall>k<16. counters s ! k = bogo s)"
    by simp
  from t[THEN conjunct2, THEN conjunct1] loop
  have "length (counters ?s) = 16 \<and> (\<forall>k<16. counters ?s ! k = bogo ?s)"
    by simp
  with loop
  have 2: "\<exists>s. goto_loop ?e STRESS_GOTO_RANDOM (At 0) (initial_state STRESS_GOTO_RANDOM) =
                  Some (Done, s) \<and>
                bogo s = 3 \<and> length (counters s) = 16 \<and> (\<forall>k<16. counters s ! k = bogo s)"
    by (intro exI[of _ ?s]) (simp add: exit_state_facts)
  from t[THEN conjunct2, THEN conjunct2] run
  have 3: "\<exists>r. stress_goto Map.empty ?e = Some (Inr r) \<and>
                length (counters (final r)) = 16 \<and>
                (\<forall>k<16. counters (final r) ! k = bogo (final r))"
    by simp
  from 1 2 3 show ?thesis by (intro conjI)
qed

text \<open>
  C9. A run whose first poll of \<^verbatim>\<open>stress_continue\<close> answers false makes no pass: the
  pass counter and all 16 sample counters are 0. The lower bound \<open>0 - 1\<close> of the sanity
  check wraps to \<open>2\<^sup>6\<^sup>4 - 1 = 0xFFFFFFFFFFFFFFFF\<close>, every one of the 16 counters is printed
  as a failure, and the result is failure.
\<close>

theorem zero_passes_fail:
  assumes "\<not> stress_continue e 0"
  shows "\<exists>r. stress_goto st e = Some (Inr r) \<and>
             bogo (final r) = 0 \<and>
             counters (final r) = replicate 16 0 \<and>
             failures r = map (\<lambda>k. \<lparr>f_label = 64 * k, f_got = 0,
                                     f_lo = 0xFFFFFFFFFFFFFFFF, f_hi = 1\<rparr>) [0..<16] \<and>
             length (failures r) = 16 \<and>
             rc r = EXIT_FAILURE"
proof -
  let ?s = "exit_state e (goto_direction_of st) 0"
  have run: "stress_goto st e = Some (Inr (finish e ?s))"
    using stress_goto_exits[of 0 e st] assms by simp
  have cs: "counters ?s = replicate 16 0" and b: "bogo ?s = 0"
    by (simp_all add: exit_state_facts)
  have lo: "(0::u64) - 1 = 0xFFFFFFFFFFFFFFFF" by simp
  have v: "violations (counters ?s) (bogo ?s) =
           map (\<lambda>k. \<lparr>f_label = 64 * k, f_got = replicate 16 0 ! k,
                      f_lo = 0 - 1, f_hi = 0 + 1\<rparr>) [0..<16]"
    unfolding cs b by (rule violations_all) (simp add: lo)
  also have "\<dots> = map (\<lambda>k. \<lparr>f_label = 64 * k, f_got = 0,
                              f_lo = 0xFFFFFFFFFFFFFFFF, f_hi = 1\<rparr>) [0..<16]"
    by (rule map_cong[OF refl]) (simp add: lo)
  finally have v': "violations (counters ?s) (bogo ?s) =
     map (\<lambda>k. \<lparr>f_label = 64 * k, f_got = 0, f_lo = 0xFFFFFFFFFFFFFFFF, f_hi = 1\<rparr>) [0..<16]" .
  have ne: "violations (counters ?s) (bogo ?s) \<noteq> []"
    unfolding v' by simp
  have len: "length (violations (counters ?s) (bogo ?s)) = 16"
    unfolding v' by simp
  show ?thesis
    using run cs b v' ne len
    by (simp add: finish_failures finish_rc finish_final del: upt_rec_numeral)
qed

theorem zero_passes_fail_witness:
  "\<exists>r. stress_goto Map.empty
          \<lparr>stress_continue = (\<lambda>k. False), stress_mwc1 = (\<lambda>k. False),
           t1 = Finite 0, t2 = Finite 1\<rparr> = Some (Inr r) \<and>
       bogo (final r) = 0 \<and>
       counters (final r) = replicate 16 0 \<and>
       failures r = map (\<lambda>k. \<lparr>f_label = 64 * k, f_got = 0,
                               f_lo = 0xFFFFFFFFFFFFFFFF, f_hi = 1\<rparr>) [0..<16] \<and>
       length (failures r) = 16 \<and>
       rc r = EXIT_FAILURE"
  using zero_passes_fail[of "\<lparr>stress_continue = (\<lambda>k. False), stress_mwc1 = (\<lambda>k. False),
        t1 = Finite 0, t2 = Finite 1\<rparr>" Map.empty]
  by (simp del: upt_rec_numeral)

text \<open>
  C4. The sanity check goes through all 16 sample counters, prints one failure for
  every counter that fails the comparison, with the index \<open>64 * k\<close>, the observed value
  and the two bounds, and sets the one metric whatever the outcome. Where neither bound
  wraps around, that is for a pass count other than 0 and \<open>2\<^sup>6\<^sup>4 - 1\<close>, the failures
  printed are exactly the violations of the inclusive range from \<open>passes - 1\<close> to
  \<open>passes + 1\<close>, in order, and the result is failure if and only if there is one. The
  code computes the bounds in unsigned 64-bit arithmetic, though: in a run whose first
  poll answers false the pass count and all 16 counters are 0, no counter is outside
  the range from -1 to 1, and yet the lower bound wraps to \<open>2\<^sup>6\<^sup>4 - 1\<close>, 16 failures are
  printed and the result is failure. There the code departs from the range.
\<close>

theorem sanity_check_wraps_at_zero:
  "(bogo s \<noteq> 0 \<and> bogo s + 1 \<noteq> 0 \<longrightarrow>
      map as_violation (failures (finish e s)) = spec_violations (counters s) (bogo s) \<and>
      (rc (finish e s) = EXIT_FAILURE \<longleftrightarrow> spec_violations (counters s) (bogo s) \<noteq> []) \<and>
      (rc (finish e s) = EXIT_SUCCESS \<longleftrightarrow> spec_violations (counters s) (bogo s) = []) \<and>
      map m_name (metrics (finish e s)) = [''million gotos per sec'']) \<and>
   (\<not> stress_continue e 0 \<longrightarrow>
      (\<exists>r. stress_goto st e = Some (Inr r) \<and>
           bogo (final r) = 0 \<and>
           counters (final r) = replicate 16 0 \<and>
           spec_violations (counters (final r)) (bogo (final r)) = [] \<and>
           length (failures r) = 16 \<and>
           rc r = EXIT_FAILURE \<and>
           map m_name (metrics r) = [''million gotos per sec'']))"
proof -
  have agree: "bogo s \<noteq> 0 \<and> bogo s + 1 \<noteq> 0 \<longrightarrow>
      map as_violation (failures (finish e s)) = spec_violations (counters s) (bogo s) \<and>
      (rc (finish e s) = EXIT_FAILURE \<longleftrightarrow> spec_violations (counters s) (bogo s) \<noteq> []) \<and>
      (rc (finish e s) = EXIT_SUCCESS \<longleftrightarrow> spec_violations (counters s) (bogo s) = []) \<and>
      map m_name (metrics (finish e s)) = [''million gotos per sec'']"
  proof
    assume nw: "bogo s \<noteq> 0 \<and> bogo s + 1 \<noteq> 0"
    have sv: "map as_violation (violations (counters s) (bogo s)) =
              spec_violations (counters s) (bogo s)"
      using nw by (intro violations_as_spec) simp_all
    then have e: "violations (counters s) (bogo s) = [] \<longleftrightarrow>
                  spec_violations (counters s) (bogo s) = []"
      by (metis map_is_Nil_conv)
    show "map as_violation (failures (finish e s)) = spec_violations (counters s) (bogo s) \<and>
      (rc (finish e s) = EXIT_FAILURE \<longleftrightarrow> spec_violations (counters s) (bogo s) \<noteq> []) \<and>
      (rc (finish e s) = EXIT_SUCCESS \<longleftrightarrow> spec_violations (counters s) (bogo s) = []) \<and>
      map m_name (metrics (finish e s)) = [''million gotos per sec'']"
      using sv e
      by (simp add: finish_failures finish_rc finish_metrics EXIT_SUCCESS_def EXIT_FAILURE_def)
  qed
  have zero: "\<not> stress_continue e 0 \<longrightarrow>
      (\<exists>r. stress_goto st e = Some (Inr r) \<and>
           bogo (final r) = 0 \<and>
           counters (final r) = replicate 16 0 \<and>
           spec_violations (counters (final r)) (bogo (final r)) = [] \<and>
           length (failures r) = 16 \<and>
           rc r = EXIT_FAILURE \<and>
           map m_name (metrics r) = [''million gotos per sec''])"
  proof
    assume nc: "\<not> stress_continue e 0"
    let ?s = "exit_state e (goto_direction_of st) 0"
    have run: "stress_goto st e = Some (Inr (finish e ?s))"
      using stress_goto_exits[of 0 e st] nc by simp
    have cs: "counters ?s = replicate 16 0" and b: "bogo ?s = 0"
      by (simp_all add: exit_state_facts)
    have sp: "spec_violations (counters ?s) (bogo ?s) = []"
      unfolding cs b by (simp add: spec_violations_empty_iff)
    have lo: "(0::u64) - 1 = 0xFFFFFFFFFFFFFFFF" by simp
    have v: "violations (counters ?s) (bogo ?s) =
             map (\<lambda>k. \<lparr>f_label = 64 * k, f_got = replicate 16 0 ! k,
                        f_lo = 0 - 1, f_hi = 0 + 1\<rparr>) [0..<16]"
      unfolding cs b by (rule violations_all) (simp add: lo)
    have len: "length (violations (counters ?s) (bogo ?s)) = 16"
      unfolding v by simp
    then have ne: "violations (counters ?s) (bogo ?s) \<noteq> []" by auto
    show "\<exists>r. stress_goto st e = Some (Inr r) \<and>
           bogo (final r) = 0 \<and>
           counters (final r) = replicate 16 0 \<and>
           spec_violations (counters (final r)) (bogo (final r)) = [] \<and>
           length (failures r) = 16 \<and>
           rc r = EXIT_FAILURE \<and>
           map m_name (metrics r) = [''million gotos per sec'']"
      using run cs b sp len ne
      by (simp add: finish_failures finish_rc finish_final finish_metrics
          del: upt_rec_numeral)
  qed
  from agree zero show ?thesis by (rule conjI)
qed

theorem sanity_check_wraps_at_zero_witness:
  "map as_violation
     (failures (finish \<lparr>stress_continue = (\<lambda>k. False), stress_mwc1 = (\<lambda>k. False),
                        t1 = Finite 0, t2 = Finite 1\<rparr>
                 \<lparr>counters = [5, 5, 9, 5, 5, 5, 4, 5, 5, 5, 5, 5, 5, 3, 6, 5], bogo = 5,
                  labels = labels_forward, polls = 6, draws = 0\<rparr>)) =
     [\<lparr>v_index = 128, v_observed = 9, v_low = 4, v_high = 6\<rparr>,
      \<lparr>v_index = 832, v_observed = 3, v_low = 4, v_high = 6\<rparr>] \<and>
   rc (finish \<lparr>stress_continue = (\<lambda>k. False), stress_mwc1 = (\<lambda>k. False),
               t1 = Finite 0, t2 = Finite 1\<rparr>
        \<lparr>counters = [5, 5, 9, 5, 5, 5, 4, 5, 5, 5, 5, 5, 5, 3, 6, 5], bogo = 5,
         labels = labels_forward, polls = 6, draws = 0\<rparr>) = EXIT_FAILURE \<and>
   (\<exists>r. stress_goto Map.empty
           \<lparr>stress_continue = (\<lambda>k. False), stress_mwc1 = (\<lambda>k. False),
            t1 = Finite 0, t2 = Finite 1\<rparr> = Some (Inr r) \<and>
        bogo (final r) = 0 \<and>
        counters (final r) = replicate 16 0 \<and>
        spec_violations (counters (final r)) (bogo (final r)) = [] \<and>
        length (failures r) = 16 \<and>
        rc r = EXIT_FAILURE \<and>
        map m_name (metrics r) = [''million gotos per sec''])"
proof -
  let ?e = "\<lparr>stress_continue = (\<lambda>k. False), stress_mwc1 = (\<lambda>k. False),
             t1 = Finite 0, t2 = Finite 1\<rparr>"
  let ?cs = "[5, 5, 9, 5, 5, 5, 4, 5, 5, 5, 5, 5, 5, 3, 6, 5 :: u64]"
  let ?s = "\<lparr>counters = ?cs, bogo = 5, labels = labels_forward, polls = 6, draws = 0\<rparr>"
  note t = sanity_check_wraps_at_zero[of ?s ?e Map.empty]
  have sv: "spec_violations (counters ?s) (bogo ?s) =
     [\<lparr>v_index = 128, v_observed = 9, v_low = 4, v_high = 6\<rparr>,
      \<lparr>v_index = 832, v_observed = 3, v_low = 4, v_high = 6\<rparr>]"
    by (simp add: spec_violations_def upt_16)
  from t[THEN conjunct1] sv
  have 1: "map as_violation (failures (finish ?e ?s)) =
     [\<lparr>v_index = 128, v_observed = 9, v_low = 4, v_high = 6\<rparr>,
      \<lparr>v_index = 832, v_observed = 3, v_low = 4, v_high = 6\<rparr>] \<and>
     rc (finish ?e ?s) = EXIT_FAILURE"
    by simp
  from t[THEN conjunct2]
  have 2: "\<exists>r. stress_goto Map.empty ?e = Some (Inr r) \<and>
        bogo (final r) = 0 \<and>
        counters (final r) = replicate 16 0 \<and>
        spec_violations (counters (final r)) (bogo (final r)) = [] \<and>
        length (failures r) = 16 \<and>
        rc r = EXIT_FAILURE \<and>
        map m_name (metrics r) = [''million gotos per sec'']"
    by simp
  from 1 2 show ?thesis by simp
qed

text \<open>
  C5. The option setter accepts exactly the tokens \<open>forward\<close>, \<open>backward\<close> and \<open>random\<close>,
  compared character by character: for each it stores the matching direction under
  \<open>goto-direction\<close>, returns 0 and prints nothing, and the stressor then runs with that
  setting. For every other string it returns -1, stores nothing, prints a message that
  names the string and lists \<open>forward, backward, random\<close>, and the invocation ends in a
  configuration error without a run.
\<close>

theorem direction_option:
  "(opts = ''forward'' \<longrightarrow>
      stress_set_goto_direction opts st = (0, st(''goto-direction'' \<mapsto> STRESS_GOTO_FORWARD), []) \<and>
      invoke (Some opts) e = Ran (stress_goto [''goto-direction'' \<mapsto> STRESS_GOTO_FORWARD] e)) \<and>
   (opts = ''backward'' \<longrightarrow>
      stress_set_goto_direction opts st = (0, st(''goto-direction'' \<mapsto> STRESS_GOTO_BACKWARD), []) \<and>
      invoke (Some opts) e = Ran (stress_goto [''goto-direction'' \<mapsto> STRESS_GOTO_BACKWARD] e)) \<and>
   (opts = ''random'' \<longrightarrow>
      stress_set_goto_direction opts st = (0, st(''goto-direction'' \<mapsto> STRESS_GOTO_RANDOM), []) \<and>
      invoke (Some opts) e = Ran (stress_goto [''goto-direction'' \<mapsto> STRESS_GOTO_RANDOM] e)) \<and>
   (opts \<noteq> ''forward'' \<and> opts \<noteq> ''backward'' \<and> opts \<noteq> ''random'' \<longrightarrow>
      stress_set_goto_direction opts st =
        (- 1, st,
         ''goto-option option '' @ [CHR 0x27] @ opts @ [CHR 0x27] @
         '' not known, options are: forward, backward, random'' @ [CHR 0x0A]) \<and>
      invoke (Some opts) e =
        ConfigurationError
          (''goto-option option '' @ [CHR 0x27] @ opts @ [CHR 0x27] @
           '' not known, options are: forward, backward, random'' @ [CHR 0x0A])) \<and>
   (fst (stress_set_goto_direction opts st) = 0 \<longleftrightarrow>
      opts = ''forward'' \<or> opts = ''backward'' \<or> opts = ''random'')"
  by (simp add: stress_set_goto_direction_def find_direction_table list_options_table
      stress_set_setting_def invoke_def)

theorem direction_option_witness:
  "stress_set_goto_direction ''sideways'' Map.empty =
     (- 1, Map.empty,
      ''goto-option option '' @ [CHR 0x27] @ ''sideways'' @ [CHR 0x27] @
      '' not known, options are: forward, backward, random'' @ [CHR 0x0A]) \<and>
   invoke (Some ''sideways'')
     \<lparr>stress_continue = (\<lambda>k. k < 5), stress_mwc1 = (\<lambda>k. False),
      t1 = Finite 0, t2 = Finite 1\<rparr> =
     ConfigurationError
       (''goto-option option '' @ [CHR 0x27] @ ''sideways'' @ [CHR 0x27] @
        '' not known, options are: forward, backward, random'' @ [CHR 0x0A]) \<and>
   fst (stress_set_goto_direction ''Forward'' Map.empty) = - 1 \<and>
   stress_set_goto_direction ''forward'' Map.empty =
     (0, [''goto-direction'' \<mapsto> STRESS_GOTO_FORWARD], []) \<and>
   stress_set_goto_direction ''backward'' Map.empty =
     (0, [''goto-direction'' \<mapsto> STRESS_GOTO_BACKWARD], []) \<and>
   stress_set_goto_direction ''random'' Map.empty =
     (0, [''goto-direction'' \<mapsto> STRESS_GOTO_RANDOM], [])"
proof -
  let ?e = "\<lparr>stress_continue = (\<lambda>k. k < 5), stress_mwc1 = (\<lambda>k. False),
             t1 = Finite 0, t2 = Finite 1\<rparr>"
  from direction_option[of "''sideways''" Map.empty ?e]
  have 1: "stress_set_goto_direction ''sideways'' Map.empty =
     (- 1, Map.empty,
      ''goto-option option '' @ [CHR 0x27] @ ''sideways'' @ [CHR 0x27] @
      '' not known, options are: forward, backward, random'' @ [CHR 0x0A]) \<and>
   invoke (Some ''sideways'') ?e =
     ConfigurationError
       (''goto-option option '' @ [CHR 0x27] @ ''sideways'' @ [CHR 0x27] @
        '' not known, options are: forward, backward, random'' @ [CHR 0x0A])"
    by simp
  from direction_option[of "''Forward''" Map.empty ?e]
  have 2: "fst (stress_set_goto_direction ''Forward'' Map.empty) = - 1" by simp
  from direction_option[of "''forward''" Map.empty ?e]
  have 3: "stress_set_goto_direction ''forward'' Map.empty =
     (0, [''goto-direction'' \<mapsto> STRESS_GOTO_FORWARD], [])" by simp
  from direction_option[of "''backward''" Map.empty ?e]
  have 4: "stress_set_goto_direction ''backward'' Map.empty =
     (0, [''goto-direction'' \<mapsto> STRESS_GOTO_BACKWARD], [])" by simp
  from direction_option[of "''random''" Map.empty ?e]
  have 5: "stress_set_goto_direction ''random'' Map.empty =
     (0, [''goto-direction'' \<mapsto> STRESS_GOTO_RANDOM], [])" by simp
  from 1 2 3 4 5 show ?thesis by simp
qed

text \<open>
  C8. In direction Random the head of every pass draws one bit and makes the backward
  table the active one if the bit is set and the forward table otherwise; no other
  block of the pass changes the active table or draws. A random run of \<open>m\<close> passes has
  drawn exactly \<open>m\<close> bits, and its last pass used the table the last bit chose. In
  direction Forward the active table is the forward table after any number of blocks of
  the run, in direction Backward the backward table, and neither run draws a bit; the
  loop from its start is the loop continued from the state after these blocks.
\<close>

theorem active_table_selection:
  "(stress_continue e (polls s) \<longrightarrow>
      labels (snd (L0x000 e STRESS_GOTO_RANDOM s)) =
        (if stress_mwc1 e (draws s) then labels_backward else labels_forward) \<and>
      draws (snd (L0x000 e STRESS_GOTO_RANDOM s)) = draws s + 1) \<and>
   (n \<noteq> 0 \<longrightarrow>
      labels (snd (block e d n s)) = labels s \<and> draws (snd (block e d n s)) = draws s) \<and>
   ((\<forall>j<m. stress_continue e j) \<and> \<not> stress_continue e m \<longrightarrow>
      (\<exists>s'. goto_loop e STRESS_GOTO_RANDOM (At 0) (initial_state STRESS_GOTO_RANDOM) =
              Some (Done, s') \<and>
            bogo s' = of_nat m \<and> draws s' = m \<and>
            (0 < m \<longrightarrow> labels s' =
               (if stress_mwc1 e (m - 1) then labels_backward else labels_forward)))) \<and>
   labels (snd (after_blocks e STRESS_GOTO_FORWARD k)) = labels_forward \<and>
   draws (snd (after_blocks e STRESS_GOTO_FORWARD k)) = 0 \<and>
   labels (snd (after_blocks e STRESS_GOTO_BACKWARD k)) = labels_backward \<and>
   draws (snd (after_blocks e STRESS_GOTO_BACKWARD k)) = 0 \<and>
   goto_loop e d (At 0) (initial_state d) =
     (case after_blocks e d k of (p, s') \<Rightarrow> goto_loop e d p s')"
proof -
  have link: "goto_loop e d (At 0) (initial_state d) =
     (case after_blocks e d k of (p, s') \<Rightarrow> goto_loop e d p s')"
    by (rule goto_loop_after_blocks)
  have head: "stress_continue e (polls s) \<longrightarrow>
      labels (snd (L0x000 e STRESS_GOTO_RANDOM s)) =
        (if stress_mwc1 e (draws s) then labels_backward else labels_forward) \<and>
      draws (snd (L0x000 e STRESS_GOTO_RANDOM s)) = draws s + 1"
    by (simp add: L0x000_def Let_def stress_bogo_inc_def)
  have rest: "n \<noteq> 0 \<longrightarrow>
      labels (snd (block e d n s)) = labels s \<and> draws (snd (block e d n s)) = draws s"
    using block_keeps_table[of n d e s] by simp
  have run: "(\<forall>j<m. stress_continue e j) \<and> \<not> stress_continue e m \<longrightarrow>
      (\<exists>s'. goto_loop e STRESS_GOTO_RANDOM (At 0) (initial_state STRESS_GOTO_RANDOM) =
              Some (Done, s') \<and>
            bogo s' = of_nat m \<and> draws s' = m \<and>
            (0 < m \<longrightarrow> labels s' =
               (if stress_mwc1 e (m - 1) then labels_backward else labels_forward)))"
  proof
    assume a: "(\<forall>j<m. stress_continue e j) \<and> \<not> stress_continue e m"
    let ?s = "exit_state e STRESS_GOTO_RANDOM m"
    have 1: "goto_loop e STRESS_GOTO_RANDOM (At 0) (initial_state STRESS_GOTO_RANDOM) =
             Some (Done, ?s)"
      using a by (intro run_exits) simp_all
    have 2: "draws ?s = m"
      by (simp add: exit_state_def passes_random(1) initial_state_facts)
    have 3: "labels ?s = (if stress_mwc1 e (m - 1) then labels_backward else labels_forward)"
      if "0 < m"
    proof -
      from that obtain m' where m: "m = Suc m'" by (cases m) simp_all
      have "labels ((pass e STRESS_GOTO_RANDOM ^^ Suc m') (initial_state STRESS_GOTO_RANDOM)) =
            (if stress_mwc1 e (draws (initial_state STRESS_GOTO_RANDOM) + m')
             then labels_backward else labels_forward)"
        by (rule passes_random(2))
      then show ?thesis
        unfolding m exit_state_def
        by (simp add: initial_state_facts del: funpow.simps)
    qed
    from 1 2 3 show "\<exists>s'. goto_loop e STRESS_GOTO_RANDOM (At 0) (initial_state STRESS_GOTO_RANDOM) =
              Some (Done, s') \<and>
            bogo s' = of_nat m \<and> draws s' = m \<and>
            (0 < m \<longrightarrow> labels s' =
               (if stress_mwc1 e (m - 1) then labels_backward else labels_forward))"
      by (simp add: exit_state_facts)
  qed
  have fwd: "labels (snd (after_blocks e STRESS_GOTO_FORWARD k)) = labels_forward \<and>
             draws (snd (after_blocks e STRESS_GOTO_FORWARD k)) = 0"
    using after_blocks_fixed[of STRESS_GOTO_FORWARD e k]
    by (simp add: initial_labels_def STRESS_GOTO_FORWARD_def STRESS_GOTO_RANDOM_def)
  have bwd: "labels (snd (after_blocks e STRESS_GOTO_BACKWARD k)) = labels_backward \<and>
             draws (snd (after_blocks e STRESS_GOTO_BACKWARD k)) = 0"
    using after_blocks_fixed[of STRESS_GOTO_BACKWARD e k]
    by (simp add: initial_labels_def STRESS_GOTO_FORWARD_def STRESS_GOTO_BACKWARD_def
        STRESS_GOTO_RANDOM_def)
  from head rest run fwd bwd link show ?thesis by blast
qed

theorem active_table_selection_witness:
  "labels (snd (L0x000 \<lparr>stress_continue = (\<lambda>k. k < 2), stress_mwc1 = (\<lambda>k. even k),
                        t1 = Finite 0, t2 = Finite 1\<rparr>
                 STRESS_GOTO_RANDOM (initial_state STRESS_GOTO_RANDOM))) = labels_backward \<and>
   (\<exists>s'. goto_loop \<lparr>stress_continue = (\<lambda>k. k < 2), stress_mwc1 = (\<lambda>k. even k),
                     t1 = Finite 0, t2 = Finite 1\<rparr>
            STRESS_GOTO_RANDOM (At 0) (initial_state STRESS_GOTO_RANDOM) = Some (Done, s') \<and>
         bogo s' = 2 \<and> draws s' = 2 \<and> labels s' = labels_forward) \<and>
   labels (snd (block \<lparr>stress_continue = (\<lambda>k. k < 2), stress_mwc1 = (\<lambda>k. even k),
                       t1 = Finite 0, t2 = Finite 1\<rparr>
                 STRESS_GOTO_RANDOM 1 (initial_state STRESS_GOTO_RANDOM))) = labels_forward"
proof -
  let ?e = "\<lparr>stress_continue = (\<lambda>k. k < 2), stress_mwc1 = (\<lambda>k. even k),
             t1 = Finite 0, t2 = Finite 1\<rparr>"
  note t = active_table_selection[of ?e "initial_state STRESS_GOTO_RANDOM" 1
      STRESS_GOTO_RANDOM 2 0]
  from t[THEN conjunct1]
  have head: "labels (snd (L0x000 ?e STRESS_GOTO_RANDOM (initial_state STRESS_GOTO_RANDOM))) =
              labels_backward"
    by (simp add: initial_state_facts)
  from t[THEN conjunct2, THEN conjunct2, THEN conjunct1]
  have run: "\<exists>s'. goto_loop ?e STRESS_GOTO_RANDOM (At 0) (initial_state STRESS_GOTO_RANDOM) =
                    Some (Done, s') \<and>
                  bogo s' = 2 \<and> draws s' = 2 \<and> labels s' = labels_forward"
    by simp
  from t[THEN conjunct2, THEN conjunct1]
  have rest: "labels (snd (block ?e STRESS_GOTO_RANDOM 1 (initial_state STRESS_GOTO_RANDOM))) =
              labels_forward"
    by (simp add: initial_state_def initial_labels_def STRESS_GOTO_FORWARD_def
        STRESS_GOTO_BACKWARD_def STRESS_GOTO_RANDOM_def)
  from head run rest show ?thesis by (intro conjI)
qed

text \<open>
  C10. With no direction stored under \<open>goto-direction\<close> the stressor's direction is
  Random: its variable keeps the value it was initialised with, and the run is the run
  with Random stored.
\<close>

theorem default_direction_is_random:
  assumes "st ''goto-direction'' = None"
  shows "goto_direction_of st = STRESS_GOTO_RANDOM \<and>
         stress_goto st e = stress_goto (st(''goto-direction'' \<mapsto> STRESS_GOTO_RANDOM)) e \<and>
         invoke None e = Ran (stress_goto [''goto-direction'' \<mapsto> STRESS_GOTO_RANDOM] e)"
proof -
  have 1: "goto_direction_of st = STRESS_GOTO_RANDOM"
    using assms by (rule goto_direction_of_None)
  have 2: "goto_direction_of (st'(''goto-direction'' \<mapsto> STRESS_GOTO_RANDOM)) = STRESS_GOTO_RANDOM"
    for st' :: settings
    by (rule goto_direction_of_Some) simp
  have 3: "goto_direction_of Map.empty = STRESS_GOTO_RANDOM"
    by (rule goto_direction_of_None) simp
  show ?thesis
    by (simp add: stress_goto_def invoke_def 1 2 3)
qed

theorem default_direction_is_random_witness:
  "goto_direction_of Map.empty = STRESS_GOTO_RANDOM \<and>
   stress_goto Map.empty
     \<lparr>stress_continue = (\<lambda>k. k < 5), stress_mwc1 = (\<lambda>k. False),
      t1 = Finite 0, t2 = Finite 1\<rparr> =
   stress_goto [''goto-direction'' \<mapsto> STRESS_GOTO_RANDOM]
     \<lparr>stress_continue = (\<lambda>k. k < 5), stress_mwc1 = (\<lambda>k. False),
      t1 = Finite 0, t2 = Finite 1\<rparr>"
  using default_direction_is_random[of Map.empty
      "\<lparr>stress_continue = (\<lambda>k. k < 5), stress_mwc1 = (\<lambda>k. False),
        t1 = Finite 0, t2 = Finite 1\<rparr>"]
  by simp

text \<open>
  C7. After the loop exactly one metric is set: index 0, name \<open>million gotos per sec\<close>,
  tagged for the harmonic mean, with the value \<open>rate / 1000000.0\<close>, where \<open>rate\<close> is
  \<open>(1024.0 * passes) / duration\<close> in double arithmetic if \<open>duration > 0.0\<close> and \<open>0.0\<close>
  otherwise, and \<open>duration\<close> is the difference of the two clock readings. For a
  duration of 0 the value is 0. For 10 passes in half a second the value is the double
  \<open>0.02048\<close>, that is the double nearest to \<open>2048 / 100000\<close>, which is
  \<open>5902958103587057 / 2\<^sup>5\<^sup>8\<close>; a run of 10 passes whose clock readings are half a
  second apart reports it.
\<close>

theorem rate_metric:
  "metrics (finish e s) =
     [\<lparr>m_index = 0, m_name = ''million gotos per sec'',
       m_value = ddiv (rate_of (bogo s) (dsub (t2 e) (t1 e))) (Finite 1000000),
       m_mean = STRESS_HARMONIC_MEAN\<rparr>] \<and>
   rate_of passes duration =
     (if dgt duration (Finite 0)
      then ddiv (dmul (Finite 1024) (double_of_u64 passes)) duration else Finite 0) \<and>
   rate_of passes (Finite 0) = Finite 0 \<and>
   ddiv (rate_of passes (Finite 0)) (Finite 1000000) = Finite 0 \<and>
   ddiv (rate_of 10 (Finite (1 / 2))) (Finite 1000000) = to_double (2048 / 100000) \<and>
   to_double (2048 / 100000) = Finite (5902958103587057 / 2 ^ 58) \<and>
   ((\<forall>j<10. stress_continue e j) \<and> \<not> stress_continue e 10 \<and>
    dsub (t2 e) (t1 e) = Finite (1 / 2) \<longrightarrow>
      (\<exists>r. stress_goto st e = Some (Inr r) \<and>
           bogo (final r) = 10 \<and>
           metrics r =
             [\<lparr>m_index = 0, m_name = ''million gotos per sec'',
               m_value = to_double (2048 / 100000), m_mean = STRESS_HARMONIC_MEAN\<rparr>]))"
proof -
  have zero: "rate_of passes (Finite 0) = Finite 0" for passes
    by (simp add: rate_of_def)
  have zero': "ddiv (rate_of passes (Finite 0)) (Finite 1000000) = Finite 0"
    unfolding zero by (simp add: to_double_def)
  have run: "(\<forall>j<10. stress_continue e j) \<and> \<not> stress_continue e 10 \<and>
    dsub (t2 e) (t1 e) = Finite (1 / 2) \<longrightarrow>
      (\<exists>r. stress_goto st e = Some (Inr r) \<and>
           bogo (final r) = 10 \<and>
           metrics r =
             [\<lparr>m_index = 0, m_name = ''million gotos per sec'',
               m_value = to_double (2048 / 100000), m_mean = STRESS_HARMONIC_MEAN\<rparr>])"
  proof
    assume a: "(\<forall>j<10. stress_continue e j) \<and> \<not> stress_continue e 10 \<and>
               dsub (t2 e) (t1 e) = Finite (1 / 2)"
    let ?s = "exit_state e (goto_direction_of st) 10"
    have "stress_goto st e = Some (Inr (finish e ?s))"
      using a by (intro stress_goto_exits) simp_all
    moreover have "bogo ?s = 10" by (simp add: exit_state_facts)
    ultimately show "\<exists>r. stress_goto st e = Some (Inr r) \<and>
           bogo (final r) = 10 \<and>
           metrics r =
             [\<lparr>m_index = 0, m_name = ''million gotos per sec'',
               m_value = to_double (2048 / 100000), m_mean = STRESS_HARMONIC_MEAN\<rparr>]"
      using a by (simp add: finish_metrics finish_final metric_example)
  qed
  have def: "rate_of passes duration =
     (if dgt duration (Finite 0)
      then ddiv (dmul (Finite 1024) (double_of_u64 passes)) duration else Finite 0)"
    by (simp add: rate_of_def)
  from finish_metrics[of e s] def zero[of passes] zero' metric_example to_double_0_02048 run
  show ?thesis by blast
qed

theorem rate_metric_witness:
  "\<exists>r. stress_goto Map.empty
          \<lparr>stress_continue = (\<lambda>k. k < 10), stress_mwc1 = (\<lambda>k. False),
           t1 = Finite 1, t2 = Finite (3 / 2)\<rparr> = Some (Inr r) \<and>
       bogo (final r) = 10 \<and>
       metrics r =
         [\<lparr>m_index = 0, m_name = ''million gotos per sec'',
           m_value = Finite (5902958103587057 / 2 ^ 58), m_mean = STRESS_HARMONIC_MEAN\<rparr>]"
proof -
  let ?e = "\<lparr>stress_continue = (\<lambda>k. k < 10), stress_mwc1 = (\<lambda>k. False),
             t1 = Finite 1, t2 = Finite (3 / 2)\<rparr>"
  have d: "dsub (t2 ?e) (t1 ?e) = Finite (1 / 2)"
    using to_double_half by simp
  have v: "to_double (64 / 3125) = Finite (5902958103587057 / 2 ^ 58)"
    using to_double_0_02048 by simp
  from rate_metric[of ?e "initial_state 0" 0 NaN Map.empty] d
  show ?thesis by (simp add: v)
qed

end
